theory Spec2Isabelle
  imports Main "HOL-Library.Log_Nat"
begin

section \<open>JavaScript numbers\<close>

text \<open>
  A Number of the script is an IEEE 754 binary64 value.  The finite ones are kept as the
  rational they denote; every arithmetic result is rounded to the nearest binary64 value,
  ties to even, with gradual underflow below \<open>2 ^ - 1022\<close> and overflow to an infinity.
  The sign of zero is not tracked: the script never divides by a computed zero, and both
  zeros are written to the page as the text \<open>0\<close>.
\<close>

datatype jsnum = NaN | PInf | NInf | Fin rat

definition pow2 :: "int \<Rightarrow> rat" where
  "pow2 e = (if 0 \<le> e then 2 ^ nat e else 1 / 2 ^ nat (- e))"

text \<open>The binary exponent \<open>\<lfloor>log\<^sub>2 x\<rfloor>\<close> of a positive rational.\<close>

definition ilog2 :: "rat \<Rightarrow> int" where
  "ilog2 x = (case quotient_of x of (p, q) \<Rightarrow>
     (let d = bitlen p - bitlen q in if pow2 d \<le> x then d else d - 1))"

text \<open>Rounding to the nearest integer, ties to the even one.\<close>

definition rne :: "rat \<Rightarrow> int" where
  "rne z = (let f = \<lfloor>z\<rfloor>; d = z - of_int f in
     if d < 1 / 2 then f else if 1 / 2 < d then f + 1 else if even f then f else f + 1)"

text \<open>
  The binary64 values around a magnitude \<open>x > 0\<close> are the multiples of \<open>2 ^ (e - 52)\<close>,
  for the exponent \<open>e\<close> of \<open>x\<close> and never below \<open>- 1022\<close> (gradual underflow);
  \<open>nearest x\<close> is the multiple nearest to \<open>x\<close>.
\<close>

definition nearest :: "rat \<Rightarrow> rat" where
  "nearest x = (let e = max (ilog2 x) (- 1022); u = pow2 (e - 52) in u * of_int (rne (x / u)))"

text \<open>Rounding of a magnitude \<open>x \<ge> 0\<close>; \<open>None\<close> is overflow.\<close>

definition rd_mag :: "rat \<Rightarrow> rat option" where
  "rd_mag x = (if x = 0 then Some 0 else if pow2 1024 \<le> nearest x then None else Some (nearest x))"

definition rd :: "rat \<Rightarrow> jsnum" where
  "rd x = (if 0 \<le> x then (case rd_mag x of None \<Rightarrow> PInf | Some y \<Rightarrow> Fin y)
           else (case rd_mag (- x) of None \<Rightarrow> NInf | Some y \<Rightarrow> Fin (- y)))"

text \<open>The finite binary64 values are the rationals that rounding leaves alone.\<close>

definition is_double :: "rat \<Rightarrow> bool" where
  "is_double x = (rd x = Fin x)"

text \<open>The values a Number can have: a finite binary64 value, an infinity or NaN.\<close>

fun binary64 :: "jsnum \<Rightarrow> bool" where
  "binary64 (Fin r) = is_double r"
| "binary64 _ = True"

fun js_add :: "jsnum \<Rightarrow> jsnum \<Rightarrow> jsnum" where
  "js_add NaN _ = NaN"
| "js_add _ NaN = NaN"
| "js_add PInf NInf = NaN"
| "js_add NInf PInf = NaN"
| "js_add PInf _ = PInf"
| "js_add _ PInf = PInf"
| "js_add NInf _ = NInf"
| "js_add _ NInf = NInf"
| "js_add (Fin a) (Fin b) = rd (a + b)"

fun js_div :: "jsnum \<Rightarrow> jsnum \<Rightarrow> jsnum" where
  "js_div NaN _ = NaN"
| "js_div _ NaN = NaN"
| "js_div PInf (Fin b) = (if 0 \<le> b then PInf else NInf)"
| "js_div NInf (Fin b) = (if 0 \<le> b then NInf else PInf)"
| "js_div PInf _ = NaN"
| "js_div NInf _ = NaN"
| "js_div (Fin a) PInf = Fin 0"
| "js_div (Fin a) NInf = Fin 0"
| "js_div (Fin a) (Fin b) =
     (if b = 0 then (if a = 0 then NaN else if 0 < a then PInf else NInf) else rd (a / b))"

fun js_lt :: "jsnum \<Rightarrow> jsnum \<Rightarrow> bool" where
  "js_lt NaN _ = False"
| "js_lt _ NaN = False"
| "js_lt PInf _ = False"
| "js_lt _ NInf = False"
| "js_lt NInf _ = True"
| "js_lt _ PInf = True"
| "js_lt (Fin a) (Fin b) = (a < b)"

text \<open>\<open>Math.ceil\<close>: the ceiling of a binary64 value is a binary64 value, so nothing is rounded.\<close>

fun js_ceil :: "jsnum \<Rightarrow> jsnum" where
  "js_ceil (Fin a) = Fin (of_int \<lceil>a\<rceil>)"
| "js_ceil x = x"

text \<open>
  The unary \<open>+\<close> applied to the result of \<open>getAttribute\<close>: \<open>null\<close> becomes \<open>0\<close>; a string
  goes through the language's string-to-number conversion, which is not part of the
  script and is a parameter of the model.
\<close>

definition to_number :: "(string \<Rightarrow> jsnum) \<Rightarrow> string option \<Rightarrow> jsnum" where
  "to_number str2num a = (case a of None \<Rightarrow> Fin 0 | Some str \<Rightarrow> str2num str)"

section \<open>The page and the script's state\<close>

type_synonym elem = nat

text \<open>The text of an element: markup text, or the text a Number is written as.\<close>

datatype content = Str string | Num jsnum

datatype error = TypeError

record entry =
  entry_target :: elem
  isIntersecting :: bool

text \<open>The variables captured by one \<open>updateCounter\<close> closure.\<close>

record anim =
  counter :: elem
  target :: jsnum
  increment :: jsnum
  current :: jsnum

text \<open>
  The page tree: the elements in document order, their class lists, \<open>data-target\<close>
  attributes and texts.
\<close>

record page =
  elems :: "elem list"
  classList :: "elem \<Rightarrow> string list"
  data_target :: "elem \<Rightarrow> string option"
  innerText :: "elem \<Rightarrow> content"

text \<open>
  The running page: the tree, the observation targets of the two watchers, the pending
  timers, the two variables of the menu and whether the click listener was added.
\<close>

record state = page +
  observed :: "elem list"
  counterObserved :: "elem list"
  timers :: "anim list"
  navbarToggler :: "elem option"
  navbarMenu :: "elem option"
  clickBound :: bool

definition querySelectorAll :: "string \<Rightarrow> page \<Rightarrow> elem list" where
  "querySelectorAll cls s = filter (\<lambda>e. cls \<in> set (classList s e)) (elems s)"

definition querySelector :: "string \<Rightarrow> page \<Rightarrow> elem option" where
  "querySelector cls s = find (\<lambda>e. cls \<in> set (classList s e)) (elems s)"

definition observe :: "elem \<Rightarrow> elem list \<Rightarrow> elem list" where
  "observe e obs = (if e \<in> set obs then obs else obs @ [e])"

definition unobserve :: "elem \<Rightarrow> elem list \<Rightarrow> elem list" where
  "unobserve e obs = removeAll e obs"

definition classList_add :: "string \<Rightarrow> string list \<Rightarrow> string list" where
  "classList_add c cs = (if c \<in> set cs then cs else cs @ [c])"

definition classList_toggle :: "string \<Rightarrow> string list \<Rightarrow> string list" where
  "classList_toggle c cs = (if c \<in> set cs then removeAll c cs else cs @ [c])"

subsection \<open>Reveal on scroll\<close>

definition revealEntry :: "entry \<Rightarrow> state \<Rightarrow> state" where
  "revealEntry e s =
     (if isIntersecting e
      then s\<lparr>classList := (classList s)
               (entry_target e := classList_add ''visible'' (classList s (entry_target e)))\<rparr>
      else s)"

definition revealCallback :: "entry list \<Rightarrow> state \<Rightarrow> state" where
  "revealCallback entries s = fold revealEntry entries s"

subsection \<open>The counter\<close>

definition duration :: jsnum where "duration = Fin 1500"

definition stepTime :: jsnum where "stepTime = Fin 15"

definition totalSteps :: jsnum where "totalSteps = js_div duration stepTime"

text \<open>
  One call of \<open>updateCounter\<close>: the closure with its accumulator advanced, the Number
  written to the element, and whether \<open>setTimeout\<close> was called.
\<close>

definition updateCounter :: "anim \<Rightarrow> anim \<times> jsnum \<times> bool" where
  "updateCounter a =
     (let a' = a\<lparr>current := js_add (current a) (increment a)\<rparr>
      in if js_lt (current a') (target a')
         then (a', js_ceil (current a'), True)
         else (a', target a', False))"

definition runUpdateCounter :: "anim \<Rightarrow> state \<Rightarrow> state" where
  "runUpdateCounter a s =
     (case updateCounter a of (a', v, again) \<Rightarrow>
        s\<lparr>innerText := (innerText s)(counter a := Num v),
          timers := (if again then timers s @ [a'] else timers s)\<rparr>)"

definition newCounter :: "elem \<Rightarrow> jsnum \<Rightarrow> anim" where
  "newCounter c t = \<lparr>counter = c, target = t, increment = js_div t totalSteps, current = Fin 0\<rparr>"

definition counterEntry :: "(string \<Rightarrow> jsnum) \<Rightarrow> entry \<Rightarrow> state \<Rightarrow> state" where
  "counterEntry str2num e s =
     (if isIntersecting e
      then (let c = entry_target e;
                t = to_number str2num (data_target s c);
                s' = runUpdateCounter (newCounter c t) s
            in s'\<lparr>counterObserved := unobserve c (counterObserved s')\<rparr>)
      else s)"

definition counterCallback :: "(string \<Rightarrow> jsnum) \<Rightarrow> entry list \<Rightarrow> state \<Rightarrow> state" where
  "counterCallback str2num entries s = fold (counterEntry str2num) entries s"

text \<open>
  The chain of timer steps of one closure, the host firing every timer it was given:
  the Number written at each call, with whether the call scheduled another one.
  \<open>None\<close> is a chain that never stops.
\<close>

partial_function (option) chain :: "anim \<Rightarrow> (jsnum \<times> bool) list option" where
  "chain a =
     (case updateCounter a of (a', v, again) \<Rightarrow>
        if again then Option.bind (chain a') (\<lambda>r. Some ((v, True) # r))
        else Some [(v, False)])"

declare chain.simps [code]

subsection \<open>Initialisation and the host's events\<close>

text \<open>
  The handler of \<open>DOMContentLoaded\<close>.  Calling \<open>addEventListener\<close> on \<open>null\<close> throws, which
  ends the handler; what it did before stays done.
\<close>

definition init :: "page \<Rightarrow> state \<times> error option" where
  "init p =
     (let animatedElements = querySelectorAll ''scroll-animate'' p;
          counters = querySelectorAll ''js-counter'' p;
          toggler = querySelector ''navbar-toggler'' p;
          menu = querySelector ''navbar-nav'' p;
          s = \<lparr>elems = elems p, classList = classList p, data_target = data_target p,
               innerText = innerText p,
               observed = fold observe animatedElements [],
               counterObserved = fold observe counters [],
               timers = [], navbarToggler = toggler, navbarMenu = menu, clickBound = False\<rparr>
      in case toggler of
           None \<Rightarrow> (s, Some TypeError)
         | Some t \<Rightarrow> (s\<lparr>clickBound := True\<rparr>, None))"

text \<open>
  What the host can do after initialisation: deliver entries to either watcher (only for
  elements the watcher still observes), fire one of the pending timers, or dispatch a
  click on the toggle control.
\<close>

datatype event = RevealNotify "entry list" | CounterNotify "entry list" | TimerFire nat | Click

fun step :: "(string \<Rightarrow> jsnum) \<Rightarrow> event \<Rightarrow> state \<Rightarrow> state \<times> error option" where
  "step str2num (RevealNotify es) s =
     (revealCallback (filter (\<lambda>e. entry_target e \<in> set (observed s)) es) s, None)"
| "step str2num (CounterNotify es) s =
     (counterCallback str2num (filter (\<lambda>e. entry_target e \<in> set (counterObserved s)) es) s, None)"
| "step str2num (TimerFire i) s =
     (if i < length (timers s)
      then (runUpdateCounter (timers s ! i)
              (s\<lparr>timers := take i (timers s) @ drop (Suc i) (timers s)\<rparr>), None)
      else (s, None))"
| "step str2num Click s =
     (if clickBound s
      then (case navbarMenu s of
              None \<Rightarrow> (s, Some TypeError)
            | Some m \<Rightarrow>
                (s\<lparr>classList := (classList s)(m := classList_toggle ''active'' (classList s m))\<rparr>,
                 None))
      else (s, None))"

text \<open>A run of events; an exception thrown by a handler is reported by the host and the page goes on.\<close>

fun exec :: "(string \<Rightarrow> jsnum) \<Rightarrow> event list \<Rightarrow> state \<Rightarrow> state" where
  "exec str2num [] s = s"
| "exec str2num (ev # evs) s = exec str2num evs (fst (step str2num ev s))"

definition clicks :: "event list \<Rightarrow> nat" where
  "clicks evs = length (filter (\<lambda>ev. ev = Click) evs)"

subsection \<open>What a run does to one counter\<close>

text \<open>The pending timers of the closures of one counter element.\<close>

definition timers_of :: "elem \<Rightarrow> state \<Rightarrow> anim list" where
  "timers_of c s = filter (\<lambda>a. counter a = c) (timers s)"

text \<open>The entries of a batch that start the animation of \<open>c\<close>.\<close>

definition starting :: "elem \<Rightarrow> entry list \<Rightarrow> entry list" where
  "starting c es = filter (\<lambda>e. isIntersecting e \<and> entry_target e = c) es"



text \<open>A delivery of a single intersecting entry for a counter.\<close>

definition trigger :: "elem \<Rightarrow> event" where
  "trigger c = CounterNotify [\<lparr>entry_target = c, isIntersecting = True\<rparr>]"

text \<open>
  The first qualifying intersection of the counter \<open>c\<close>: it is observed, none of its timers
  is pending, and the watcher delivers a batch in which exactly one entry is an
  intersecting entry for \<open>c\<close>.
\<close>

definition first_intersection :: "elem \<Rightarrow> entry list \<Rightarrow> state \<Rightarrow> bool" where
  "first_intersection c es s =
     (c \<in> set (counterObserved s) \<and> timers_of c s = [] \<and> length (starting c es) = 1)"

text \<open>The page after the counter watcher was given a batch of entries.\<close>

definition deliver :: "(string \<Rightarrow> jsnum) \<Rightarrow> entry list \<Rightarrow> state \<Rightarrow> state" where
  "deliver str2num es s = fst (step str2num (CounterNotify es) s)"

text \<open>The event fires a pending timer of \<open>c\<close>.\<close>

fun fires_now :: "elem \<Rightarrow> event \<Rightarrow> state \<Rightarrow> bool" where
  "fires_now c (TimerFire i) s = (i < length (timers s) \<and> counter (timers s ! i) = c)"
| "fires_now c _ s = False"

text \<open>How often a run of events fires a timer of \<open>c\<close>.\<close>

fun fires :: "(string \<Rightarrow> jsnum) \<Rightarrow> elem \<Rightarrow> event list \<Rightarrow> state \<Rightarrow> nat" where
  "fires str2num c [] s = 0"
| "fires str2num c (ev # evs) s =
     (if fires_now c ev s then 1 else 0) + fires str2num c evs (fst (step str2num ev s))"

text \<open>
  What is left of the animation of \<open>c\<close>: the writes \<open>r\<close> still to come, none when it is over,
  and otherwise the chain of the one closure whose timer is pending.
\<close>

definition remaining :: "elem \<Rightarrow> state \<Rightarrow> (jsnum \<times> bool) list \<Rightarrow> bool" where
  "remaining c s r =
     (c \<notin> set (counterObserved s)
      \<and> (case timers_of c s of
            [] \<Rightarrow> r = []
          | [a] \<Rightarrow> chain a = Some r
          | _ \<Rightarrow> False))"

subsection \<open>A page to run the script on\<close>

text \<open>
  A toggle control, a menu container, three elements of the reveal group (the menu
  container among them) and five counters: targets \<open>100\<close>, \<open>3\<close>, none (the attribute is
  absent), \<open>-5\<close> and \<open>0\<close>.
\<close>

definition example_page :: page where
  "example_page =
     \<lparr>elems = [0, 1, 2, 3, 4, 5, 6, 7, 8],
      classList = (\<lambda>e. if e = 0 then [''navbar-toggler'']
                       else if e = 1 then [''navbar-nav'', ''scroll-animate'']
                       else if e = 2 \<or> e = 3 then [''scroll-animate'']
                       else if 4 \<le> e \<and> e \<le> 8 then [''js-counter'']
                       else []),
      data_target = (\<lambda>e. if e = 4 then Some ''100'' else if e = 5 then Some ''3''
                         else if e = 7 then Some ''-5'' else if e = 8 then Some ''0'' else None),
      innerText = (\<lambda>e. Str ''0'')\<rparr>"

definition example_str2num :: "string \<Rightarrow> jsnum" where
  "example_str2num str =
     (if str = ''100'' then Fin 100 else if str = ''3'' then Fin 3
      else if str = ''0'' then Fin 0 else if str = ''-5'' then Fin (- 5) else NaN)"

definition example_state :: state where
  "example_state = fst (init example_page)"

definition example_entries :: "entry list" where
  "example_entries =
     [\<lparr>entry_target = 2, isIntersecting = True\<rparr>, \<lparr>entry_target = 3, isIntersecting = False\<rparr>,
      \<lparr>entry_target = 2, isIntersecting = True\<rparr>]"

text \<open>A batch for all five counters at once.\<close>

definition example_batch :: "entry list" where
  "example_batch =
     [\<lparr>entry_target = 4, isIntersecting = True\<rparr>, \<lparr>entry_target = 5, isIntersecting = True\<rparr>,
      \<lparr>entry_target = 6, isIntersecting = True\<rparr>, \<lparr>entry_target = 7, isIntersecting = True\<rparr>,
      \<lparr>entry_target = 8, isIntersecting = True\<rparr>, \<lparr>entry_target = 2, isIntersecting = False\<rparr>]"


text \<open>Pages that lack the toggle control, or the menu container.\<close>

definition page_without_toggler :: page where
  "page_without_toggler =
     \<lparr>elems = [1, 2, 4],
      classList = (\<lambda>e. if e = 1 then [''navbar-nav''] else if e = 2 then [''scroll-animate'']
                       else if e = 4 then [''js-counter''] else []),
      data_target = (\<lambda>e. if e = 4 then Some ''100'' else None),
      innerText = (\<lambda>e. Str ''0'')\<rparr>"

definition page_without_menu :: page where
  "page_without_menu =
     \<lparr>elems = [0, 2, 4],
      classList = (\<lambda>e. if e = 0 then [''navbar-toggler''] else if e = 2 then [''scroll-animate'']
                       else if e = 4 then [''js-counter''] else []),
      data_target = (\<lambda>e. if e = 4 then Some ''100'' else None),
      innerText = (\<lambda>e. Str ''0'')\<rparr>"

section \<open>Rounding to binary64\<close>

lemma pow2_powi: "pow2 e = 2 powi e"
proof (cases "0 \<le> e")
  case True
  then show ?thesis by (simp add: pow2_def power_int_def)
next
  case False
  then show ?thesis
    by (simp add: pow2_def power_int_def power_one_over inverse_eq_divide)
qed

lemma pow2_pos [simp]: "0 < pow2 e"
  by (simp add: pow2_powi)

lemma pow2_add: "pow2 (a + b) = pow2 a * pow2 b"
  by (simp add: pow2_powi power_int_add)

lemma pow2_nonneg [simp]: "0 \<le> pow2 e"
  by (rule less_imp_le) (rule pow2_pos)

lemma pow2_neq0 [simp]: "pow2 e \<noteq> 0"
  using pow2_pos [of e] by (simp only: less_le) simp

lemma pow2_not_neg [simp]: "\<not> pow2 e < 0"
  by (simp add: not_less)

lemma abs_pow2 [simp]: "\<bar>pow2 e\<bar> = pow2 e"
  by (rule abs_of_pos) (rule pow2_pos)

lemma pow2_mult_eq: "a + b = c \<Longrightarrow> pow2 a * pow2 b = pow2 c"
  using pow2_add [of a b] by simp

lemma pow2_numerals: "pow2 52 = 2 ^ 52" "pow2 53 = 2 ^ 53" "pow2 0 = 1" "pow2 1 = 2"
  by (simp_all add: pow2_def)

lemma pow2_mono: "a \<le> b \<Longrightarrow> pow2 a \<le> pow2 b"
  by (simp add: pow2_powi power_int_increasing)

lemma pow2_less_iff: "pow2 a < pow2 b \<longleftrightarrow> a < b"
proof
  assume l: "pow2 a < pow2 b"
  show "a < b"
  proof (rule ccontr)
    assume "\<not> a < b"
    then have "pow2 b \<le> pow2 a"
      by (simp add: pow2_mono)
    then show False using l by simp
  qed
next
  assume "a < b"
  then show "pow2 a < pow2 b"
    by (simp add: pow2_powi power_int_strict_increasing)
qed

lemma pow2_nat: "0 \<le> e \<Longrightarrow> pow2 e = 2 ^ nat e"
  by (simp add: pow2_def)

lemma bitlen_pow2_bounds:
  assumes "0 < p"
  shows "pow2 (bitlen p - 1) \<le> of_int p" and "of_int p < pow2 (bitlen p)"
proof -
  have b: "0 < bitlen p"
    using assms bitlen_eq_zero_iff [of p] bitlen_nonneg [of p] by simp
  have "2 ^ nat (bitlen p - 1) \<le> p" and "p < 2 ^ nat (bitlen p)"
    using bitlen_bounds [OF assms] by simp_all
  then have "(of_int (2 ^ nat (bitlen p - 1)) :: rat) \<le> of_int p"
    and "(of_int p :: rat) < of_int (2 ^ nat (bitlen p))"
    by (simp_all only: of_int_le_iff of_int_less_iff)
  then show "pow2 (bitlen p - 1) \<le> of_int p" and "of_int p < pow2 (bitlen p)"
    using b by (simp_all add: pow2_nat)
qed

lemma ilog2_bounds:
  assumes "0 < x"
  shows "pow2 (ilog2 x) \<le> x \<and> x < pow2 (ilog2 x + 1)"
proof -
  obtain p q where pq: "quotient_of x = (p, q)"
    by (cases "quotient_of x")
  have q: "0 < q"
    using pq by (rule quotient_of_denom_pos)
  have x: "x = of_int p / of_int q"
    using pq by (rule quotient_of_div)
  have p: "0 < p"
    using assms q x by (simp add: zero_less_divide_iff)
  let ?d = "bitlen p - bitlen q"
  have qpos: "(0::rat) < of_int q"
    using q by simp
  have up: "x < pow2 (?d + 1)"
  proof -
    have "of_int p < pow2 (bitlen p)"
      using p by (rule bitlen_pow2_bounds)
    also have "pow2 (bitlen p) = pow2 (?d + 1) * pow2 (bitlen q - 1)"
      by (simp add: pow2_add [symmetric])
    also have "\<dots> \<le> pow2 (?d + 1) * of_int q"
      using bitlen_pow2_bounds(1) [OF q] by (simp add: less_imp_le)
    finally have "of_int p < pow2 (?d + 1) * of_int q" .
    then show ?thesis
      using qpos by (simp add: x pos_divide_less_eq)
  qed
  have lo: "pow2 (?d - 1) < x"
  proof -
    have "pow2 (?d - 1) * of_int q < pow2 (?d - 1) * pow2 (bitlen q)"
      using bitlen_pow2_bounds(2) [OF q] by simp
    also have "\<dots> = pow2 (bitlen p - 1)"
      by (simp add: pow2_add [symmetric])
    also have "\<dots> \<le> of_int p"
      using p by (rule bitlen_pow2_bounds)
    finally have "pow2 (?d - 1) * of_int q < of_int p" .
    then show ?thesis
      using qpos by (simp add: x pos_less_divide_eq)
  qed
  show ?thesis
  proof (cases "pow2 ?d \<le> x")
    case True
    then have "ilog2 x = ?d"
      by (simp add: ilog2_def pq)
    then show ?thesis using True up by simp
  next
    case False
    then have "ilog2 x = ?d - 1"
      by (simp add: ilog2_def pq)
    then show ?thesis using False lo by simp
  qed
qed

lemma ilog2_unique:
  assumes "pow2 e \<le> x" and "x < pow2 (e + 1)"
  shows "ilog2 x = e"
proof -
  have "0 < x"
    using assms(1) pow2_pos [of e] by (rule less_le_trans [rotated])
  then have b: "pow2 (ilog2 x) \<le> x" "x < pow2 (ilog2 x + 1)"
    using ilog2_bounds by simp_all
  have "pow2 e < pow2 (ilog2 x + 1)"
    using assms(1) b(2) by simp
  moreover have "pow2 (ilog2 x) < pow2 (e + 1)"
    using assms(2) b(1) by simp
  ultimately show ?thesis
    by (simp add: pow2_less_iff)
qed

lemma rne_of_int [simp]: "rne (of_int n) = n"
  by (simp add: rne_def)

lemma rne_error: "\<bar>of_int (rne z) - z\<bar> \<le> 1 / 2"
proof -
  have "of_int \<lfloor>z\<rfloor> \<le> z" and "z < of_int \<lfloor>z\<rfloor> + 1"
    by linarith+
  then show ?thesis
    by (auto simp: rne_def Let_def)
qed

lemma rne_mono_int:
  assumes "of_int a \<le> z"
  shows "a \<le> rne z"
proof -
  have "a \<le> \<lfloor>z\<rfloor>"
    using assms by (simp add: le_floor_iff)
  then show ?thesis
    by (auto simp: rne_def Let_def)
qed

lemma rne_le_int:
  assumes "z \<le> of_int b"
  shows "rne z \<le> b"
proof (cases "z = of_int b")
  case True
  then show ?thesis by simp
next
  case False
  then have "z < of_int b"
    using assms by simp
  then have "\<lfloor>z\<rfloor> < b"
    by (simp add: floor_less_iff)
  then show ?thesis
    by (auto simp: rne_def Let_def)
qed

lemma pow2_le_iff: "pow2 a \<le> pow2 b \<longleftrightarrow> a \<le> b"
  using pow2_less_iff [of b a] by (auto simp: not_less [symmetric])

text \<open>The scaled magnitude \<open>x / u\<close> lies in the binade \<open>[2^52, 2^53)\<close>, or below it when subnormal.\<close>

lemma scaled_bounds:
  assumes "0 < x" and "e = max (ilog2 x) (- 1022)"
  shows "x / pow2 (e - 52) < pow2 53"
    and "ilog2 x = e \<Longrightarrow> pow2 52 \<le> x / pow2 (e - 52)"
proof -
  have b: "pow2 (ilog2 x) \<le> x" "x < pow2 (ilog2 x + 1)"
    using ilog2_bounds [OF assms(1)] by simp_all
  have "x < pow2 (e + 1)"
    using b(2) pow2_mono [of "ilog2 x + 1" "e + 1"] assms(2) by simp
  also have "pow2 (e + 1) = pow2 53 * pow2 (e - 52)"
    by (rule pow2_mult_eq [symmetric]) simp
  finally show "x / pow2 (e - 52) < pow2 53"
    by (simp add: pos_divide_less_eq)
  show "pow2 52 \<le> x / pow2 (e - 52)" if "ilog2 x = e"
  proof -
    have "pow2 52 * pow2 (e - 52) = pow2 e"
      by (rule pow2_mult_eq) simp
    then show ?thesis
      using b(1) that by (simp add: pos_le_divide_eq)
  qed
qed

lemma nearest_nonneg:
  assumes "0 < x"
  shows "0 \<le> nearest x"
proof -
  let ?u = "pow2 (max (ilog2 x) (- 1022) - 52)"
  have "(of_int 0 :: rat) \<le> x / ?u"
    using assms by simp
  then have "0 \<le> rne (x / ?u)"
    by (rule rne_mono_int)
  then show ?thesis
    by (simp add: nearest_def Let_def)
qed

lemma rne_le_double:
  assumes "0 \<le> z"
  shows "of_int (rne z) \<le> 2 * z"
proof (cases "z < 1 / 2")
  case True
  then have "\<lfloor>z\<rfloor> = 0"
    using assms by (simp add: floor_eq_iff)
  then have "rne z = 0"
    using True by (simp add: rne_def)
  then show ?thesis using assms by simp
next
  case False
  have "of_int (rne z) - z \<le> 1 / 2"
    using rne_error [of z] by (simp only: abs_le_iff)
  then show ?thesis
    using False by linarith
qed

lemma nearest_le_double:
  assumes "0 < x"
  shows "nearest x \<le> 2 * x"
proof -
  let ?u = "pow2 (max (ilog2 x) (- 1022) - 52)"
  have "of_int (rne (x / ?u)) \<le> 2 * (x / ?u)"
    using assms by (intro rne_le_double) simp
  then have "?u * of_int (rne (x / ?u)) \<le> ?u * (2 * (x / ?u))"
    by (simp only: mult_le_cancel_left_pos pow2_pos)
  then show ?thesis
    by (simp add: nearest_def Let_def)
qed

text \<open>In the normal range rounding moves a magnitude by at most \<open>2^-53\<close> of itself.\<close>

lemma nearest_error:
  assumes "pow2 (- 1022) \<le> x"
  shows "\<bar>nearest x - x\<bar> * 2 ^ 53 \<le> x"
proof -
  have x: "0 < x"
    using pow2_pos [of "- 1022"] assms by (rule less_le_trans)
  have "pow2 (- 1022) < pow2 (ilog2 x + 1)"
    using assms ilog2_bounds [OF x] by simp
  then have e: "max (ilog2 x) (- 1022) = ilog2 x"
    by (simp add: pow2_less_iff)
  let ?u = "pow2 (ilog2 x - 52)"
  have "\<bar>of_int (rne (x / ?u)) - x / ?u\<bar> \<le> 1 / 2"
    by (rule rne_error)
  then have "?u * \<bar>of_int (rne (x / ?u)) - x / ?u\<bar> \<le> ?u * (1 / 2)"
    by (simp only: mult_le_cancel_left_pos pow2_pos)
  moreover have "?u * \<bar>of_int (rne (x / ?u)) - x / ?u\<bar> = \<bar>nearest x - x\<bar>"
  proof -
    have "?u * \<bar>of_int (rne (x / ?u)) - x / ?u\<bar> = \<bar>?u * (of_int (rne (x / ?u)) - x / ?u)\<bar>"
      by (simp add: abs_mult)
    also have "?u * (of_int (rne (x / ?u)) - x / ?u) = nearest x - x"
      by (simp add: nearest_def Let_def e right_diff_distrib)
    finally show ?thesis .
  qed
  ultimately have "\<bar>nearest x - x\<bar> \<le> ?u / 2"
    by simp
  then have "\<bar>nearest x - x\<bar> * 2 ^ 53 \<le> ?u / 2 * 2 ^ 53"
    by simp
  also have "?u / 2 * 2 ^ 53 = pow2 (ilog2 x - 52) * pow2 52"
    by (simp add: pow2_numerals)
  also have "\<dots> = pow2 (ilog2 x)"
    by (rule pow2_mult_eq) simp
  also have "\<dots> \<le> x"
    using ilog2_bounds [OF x] by simp
  finally show ?thesis .
qed

text \<open>A positive magnitude on its own grid is left alone by rounding.\<close>

lemma nearest_grid:
  assumes "x = pow2 (max (ilog2 x) (- 1022) - 52) * of_int k"
  shows "nearest x = x"
proof -
  let ?u = "pow2 (max (ilog2 x) (- 1022) - 52)"
  have "x / ?u = ?u * of_int k / ?u"
    using assms by simp
  then have "x / ?u = of_int k"
    by (simp only: nonzero_mult_div_cancel_left pow2_neq0 simp_thms)
  then have "nearest x = ?u * of_int k"
    by (simp add: nearest_def Let_def)
  then show ?thesis using assms by simp
qed

lemma on_grid:
  assumes "y = pow2 (e - 52) * of_int m" and "0 < m" and "m \<le> 2 ^ 53"
    and "- 1022 \<le> e" and "2 ^ 52 \<le> m \<or> e = - 1022"
  shows "\<exists>k. y = pow2 (max (ilog2 y) (- 1022) - 52) * of_int k"
proof -
  have m0: "(0::rat) < of_int m"
    using assms(2) by simp
  consider (top) "m = 2 ^ 53" | (mid) "2 ^ 52 \<le> m" "m < 2 ^ 53" | (low) "m < 2 ^ 52"
    using assms(3) by linarith
  then show ?thesis
  proof cases
    case top
    then have "y = pow2 (e - 52) * pow2 53"
      using assms(1) by (simp add: pow2_numerals)
    also have "\<dots> = pow2 (e + 1)"
      by (rule pow2_mult_eq) simp
    finally have y: "y = pow2 (e + 1)" .
    have "pow2 (e + 1) < pow2 (e + 1 + 1)"
      by (simp add: pow2_less_iff)
    then have "pow2 (e + 1) \<le> y" and "y < pow2 (e + 1 + 1)"
      using y by simp_all
    then have "ilog2 y = e + 1"
      by (rule ilog2_unique)
    then have "max (ilog2 y) (- 1022) = e + 1"
      using assms(4) by simp
    moreover have "pow2 (e + 1 - 52) * pow2 52 = pow2 (e + 1)"
      by (rule pow2_mult_eq) simp
    then have "y = pow2 (e + 1 - 52) * of_int (2 ^ 52)"
      using y by (simp add: pow2_numerals)
    ultimately show ?thesis by metis
  next
    case mid
    have "pow2 52 \<le> (of_int m :: rat)" and "(of_int m :: rat) < pow2 53"
      using mid by (simp_all add: pow2_numerals)
    then have "pow2 (e - 52) * pow2 52 \<le> y" and "y < pow2 (e - 52) * pow2 53"
      using assms(1) by (simp_all only: mult_le_cancel_left_pos mult_less_cancel_left_pos pow2_pos)
    moreover have "pow2 (e - 52) * pow2 52 = pow2 e" "pow2 (e - 52) * pow2 53 = pow2 (e + 1)"
      by (rule pow2_mult_eq, simp)+
    ultimately have "pow2 e \<le> y" and "y < pow2 (e + 1)"
      by simp_all
    then have "ilog2 y = e"
      by (rule ilog2_unique)
    then have "max (ilog2 y) (- 1022) = e"
      using assms(4) by simp
    then show ?thesis using assms(1) by metis
  next
    case low
    then have e: "e = - 1022"
      using assms(5) by simp
    have "(of_int m :: rat) < pow2 52"
      using low by (simp add: pow2_numerals)
    then have "y < pow2 (e - 52) * pow2 52"
      using assms(1) by (simp only: mult_less_cancel_left_pos pow2_pos)
    moreover have "pow2 (e - 52) * pow2 52 = pow2 (- 1022)"
      by (rule pow2_mult_eq) (simp add: e)
    ultimately have lt: "y < pow2 (- 1022)"
      by simp
    have "0 < y"
      using assms(1) m0 by simp
    then have "pow2 (ilog2 y) \<le> y"
      using ilog2_bounds by simp
    then have "pow2 (ilog2 y) < pow2 (- 1022)"
      using lt by simp
    then have "max (ilog2 y) (- 1022) = e"
      using e by (simp add: pow2_less_iff)
    then show ?thesis using assms(1) by metis
  qed
qed

lemma nearest_idem:
  assumes "0 < x" and "0 < nearest x"
  shows "nearest (nearest x) = nearest x"
proof -
  define e where "e = max (ilog2 x) (- 1022)"
  define m where "m = rne (x / pow2 (e - 52))"
  have y: "nearest x = pow2 (e - 52) * of_int m"
    by (simp add: nearest_def Let_def e_def m_def)
  have "(0::rat) < of_int m"
    using assms(2) y by (simp add: zero_less_mult_iff)
  then have m0: "0 < m"
    by simp
  have "x / pow2 (e - 52) \<le> of_int (2 ^ 53)"
    using scaled_bounds(1) [OF assms(1) e_def] by (simp add: pow2_numerals)
  then have m53: "m \<le> 2 ^ 53"
    unfolding m_def by (rule rne_le_int)
  have m52: "2 ^ 52 \<le> m \<or> e = - 1022"
  proof (cases "ilog2 x = e")
    case True
    then have "of_int (2 ^ 52) \<le> x / pow2 (e - 52)"
      using scaled_bounds(2) [OF assms(1) e_def] by (simp add: pow2_numerals)
    then have "2 ^ 52 \<le> m"
      unfolding m_def by (rule rne_mono_int)
    then show ?thesis ..
  next
    case False
    then show ?thesis by (simp add: e_def max_def split: if_splits)
  qed
  have "- 1022 \<le> e"
    by (simp add: e_def)
  from on_grid [OF y m0 m53 this m52]
  obtain k where "nearest x = pow2 (max (ilog2 (nearest x)) (- 1022) - 52) * of_int k" ..
  then show ?thesis
    by (rule nearest_grid)
qed

lemma rd_mag_idem:
  assumes "0 \<le> x" and "rd_mag x = Some y"
  shows "rd_mag y = Some y"
proof (cases "x = 0 \<or> y = 0")
  case True
  then show ?thesis using assms(2) by (auto simp: rd_mag_def)
next
  case False
  then have x: "0 < x" and y0: "y \<noteq> 0"
    using assms(1) by simp_all
  have y: "y = nearest x" and lt: "\<not> pow2 1024 \<le> nearest x"
    using assms(2) False by (simp_all add: rd_mag_def split: if_splits)
  have "0 < nearest x"
    using nearest_nonneg [OF x] y y0 by simp
  then have "nearest y = y"
    using nearest_idem [OF x] y by simp
  then show ?thesis
    using y0 lt y by (simp add: rd_mag_def)
qed

lemma rd_idem:
  assumes "rd x = Fin y"
  shows "rd y = Fin y"
proof (cases "0 \<le> x")
  case True
  then obtain z where z: "rd_mag x = Some z" and yz: "y = z"
    using assms by (auto simp: rd_def split: option.splits)
  have "0 \<le> z"
    using z True nearest_nonneg [of x] by (auto simp: rd_mag_def split: if_splits)
  then show ?thesis
    using rd_mag_idem [OF True z] yz by (simp add: rd_def)
next
  case False
  then obtain z where z: "rd_mag (- x) = Some z" and yz: "y = - z"
    using assms by (auto simp: rd_def split: option.splits)
  have x: "0 \<le> - x"
    using False by simp
  have z0: "0 \<le> z"
    using z x nearest_nonneg [of "- x"] by (auto simp: rd_mag_def split: if_splits)
  show ?thesis
  proof (cases "z = 0")
    case True
    then show ?thesis using yz by (simp add: rd_def rd_mag_def)
  next
    case False
    then show ?thesis
      using rd_mag_idem [OF x z] yz z0 by (simp add: rd_def)
  qed
qed

section \<open>Initialisation\<close>

lemma init_fields:
  "snd (init p) = (case querySelector ''navbar-toggler'' p of None \<Rightarrow> Some TypeError | Some t \<Rightarrow> None)"
  "clickBound (fst (init p)) = (querySelector ''navbar-toggler'' p \<noteq> None)"
  "navbarMenu (fst (init p)) = querySelector ''navbar-nav'' p"
  "navbarToggler (fst (init p)) = querySelector ''navbar-toggler'' p"
  "observed (fst (init p)) = fold observe (querySelectorAll ''scroll-animate'' p) []"
  "counterObserved (fst (init p)) = fold observe (querySelectorAll ''js-counter'' p) []"
  "timers (fst (init p)) = []"
  "classList (fst (init p)) = classList p"
  "innerText (fst (init p)) = innerText p"
  "data_target (fst (init p)) = data_target p"
  by (simp_all add: init_def Let_def split: option.splits)

section \<open>The menu toggle\<close>

lemma revealCallback_menu [simp]:
  "navbarMenu (revealCallback es s) = navbarMenu s"
  "clickBound (revealCallback es s) = clickBound s"
  by (induction es arbitrary: s) (simp_all add: revealCallback_def revealEntry_def)

lemma counterCallback_menu [simp]:
  "navbarMenu (counterCallback f es s) = navbarMenu s"
  "clickBound (counterCallback f es s) = clickBound s"
  by (induction es arbitrary: s)
    (simp_all add: counterCallback_def counterEntry_def runUpdateCounter_def Let_def
      split: prod.splits)

lemma runUpdateCounter_menu [simp]:
  "navbarMenu (runUpdateCounter a s) = navbarMenu s"
  "clickBound (runUpdateCounter a s) = clickBound s"
  "classList (runUpdateCounter a s) = classList s"
  by (simp_all add: runUpdateCounter_def split: prod.splits)

lemma counterCallback_classList [simp]:
  "classList (counterCallback f es s) = classList s"
  by (induction es arbitrary: s) (simp_all add: counterCallback_def counterEntry_def Let_def)

lemma revealCallback_active:
  "(''active'' \<in> set (classList (revealCallback es s) m)) = (''active'' \<in> set (classList s m))"
  by (induction es arbitrary: s)
    (simp_all add: revealCallback_def revealEntry_def classList_add_def)

lemma step_menu_vars:
  "navbarMenu (fst (step f ev s)) = navbarMenu s \<and> clickBound (fst (step f ev s)) = clickBound s"
  by (cases ev) (simp_all split: option.splits)

lemma step_active:
  assumes "clickBound s" and "navbarMenu s = Some m"
  shows "(''active'' \<in> set (classList (fst (step f ev s)) m))
       = (if ev = Click then ''active'' \<notin> set (classList s m) else ''active'' \<in> set (classList s m))"
  using assms by (cases ev) (auto simp: revealCallback_active classList_toggle_def)

lemma exec_active:
  assumes "clickBound s" and "navbarMenu s = Some m"
  shows "(''active'' \<in> set (classList (exec f evs s) m))
       = ((''active'' \<in> set (classList s m)) \<noteq> odd (clicks evs))"
  using assms
proof (induction evs arbitrary: s)
  case Nil
  then show ?case by (simp add: clicks_def)
next
  case (Cons ev evs)
  have "clickBound (fst (step f ev s))" and "navbarMenu (fst (step f ev s)) = Some m"
    using Cons.prems step_menu_vars [of f ev s] by simp_all
  from Cons.IH [OF this] step_active [OF Cons.prems, of f ev]
  show ?case by (auto simp: clicks_def)
qed

text \<open>
  C3.  With the click handler bound to an existing menu container that starts closed
  (no \<open>active\<close> class), after any run of host events the menu is open exactly when the
  number of clicks in the run is odd: each click toggles, and no other event of the page
  (watcher callbacks, timers) changes the marker.  In particular \<open>N\<close> clicks in a row
  leave it open for odd \<open>N\<close> and closed for even \<open>N\<close>.
\<close>

theorem menu_toggle_parity:
  assumes "clickBound s" and "navbarMenu s = Some m" and "''active'' \<notin> set (classList s m)"
  shows "(''active'' \<in> set (classList (exec f evs s) m)) = odd (clicks evs)
       \<and> (''active'' \<in> set (classList (exec f (replicate N Click) s) m)) = odd N"
proof -
  have "clicks (replicate N Click) = N"
    by (simp add: clicks_def)
  then show ?thesis
    using exec_active [OF assms(1,2), of f evs]
      exec_active [OF assms(1,2), of f "replicate N Click"] assms(3)
    by simp
qed

theorem menu_toggle_parity_witness:
  "clickBound (fst (init example_page)) \<and> navbarMenu (fst (init example_page)) = Some 1
   \<and> ''active'' \<notin> set (classList (fst (init example_page)) 1)
   \<and> ''active'' \<in> set (classList (exec example_str2num
          [Click, RevealNotify [\<lparr>entry_target = 1, isIntersecting = True\<rparr>], Click, TimerFire 0, Click]
          (fst (init example_page))) 1)
   \<and> ''active'' \<in> set (classList (exec example_str2num (replicate 3 Click)
          (fst (init example_page))) 1)"
proof -
  have b: "clickBound (fst (init example_page))"
    by (simp add: init_def example_page_def querySelector_def querySelectorAll_def Let_def)
  have m: "navbarMenu (fst (init example_page)) = Some 1"
    by (simp add: init_def example_page_def querySelector_def querySelectorAll_def Let_def)
  have a: "''active'' \<notin> set (classList (fst (init example_page)) 1)"
    by (simp add: init_def example_page_def querySelector_def querySelectorAll_def Let_def)
  have c: "clicks [Click, RevealNotify [\<lparr>entry_target = 1, isIntersecting = True\<rparr>], Click,
             TimerFire 0, Click] = 3"
    by (simp add: clicks_def)
  show ?thesis
    using b m a c
      menu_toggle_parity [OF b m a, of example_str2num
        "[Click, RevealNotify [\<lparr>entry_target = 1, isIntersecting = True\<rparr>], Click, TimerFire 0, Click]" 3]
    by simp
qed

section \<open>Reveal\<close>

lemma classList_add_idem: "classList_add c (classList_add c cs) = classList_add c cs"
  by (simp add: classList_add_def)

lemma revealEntry_classList:
  "classList (revealEntry e s) E =
     (if isIntersecting e \<and> entry_target e = E then classList_add ''visible'' (classList s E)
      else classList s E)"
  by (simp add: revealEntry_def)

lemma revealCallback_classList:
  "classList (revealCallback es s) E =
     (if \<exists>e\<in>set es. isIntersecting e \<and> entry_target e = E
      then classList_add ''visible'' (classList s E) else classList s E)"
proof (induction es arbitrary: s)
  case Nil
  then show ?case by (simp add: revealCallback_def)
next
  case (Cons e es)
  have "revealCallback (e # es) s = revealCallback es (revealEntry e s)"
    by (simp add: revealCallback_def)
  then show ?case
    using Cons.IH [of "revealEntry e s"]
    by (auto simp: revealEntry_classList classList_add_idem)
qed

lemma step_visible:
  assumes "''visible'' \<in> set (classList s E)"
  shows "''visible'' \<in> set (classList (fst (step f ev s)) E)"
proof (cases ev)
  case (RevealNotify es)
  then show ?thesis
    using assms by (simp add: revealCallback_classList classList_add_def)
next
  case (CounterNotify es)
  then show ?thesis using assms by simp
next
  case (TimerFire i)
  then show ?thesis using assms by simp
next
  case Click
  then show ?thesis
    using assms by (auto simp: classList_toggle_def split: option.splits)
qed

lemma exec_visible:
  "''visible'' \<in> set (classList s E) \<Longrightarrow> ''visible'' \<in> set (classList (exec f evs s) E)"
  by (induction evs arbitrary: s) (simp_all add: step_visible)

text \<open>
  C4.  When the watcher delivers entries among which one for an observed element \<open>E\<close> is
  intersecting, \<open>E\<close> has the \<open>visible\<close> marker afterwards, and its class list is the one
  a single \<open>classList.add\<close> gives, however many such entries the batch holds.  Once the
  marker is there, a further delivery leaves the class list of \<open>E\<close> as it is, and no run
  of host events (entries that are not intersecting, clicks, timers) takes the marker away.
\<close>

theorem reveal_one_way:
  "(E \<in> set (observed s) \<and> (\<exists>e\<in>set es. isIntersecting e \<and> entry_target e = E) \<longrightarrow>
      classList (fst (step f (RevealNotify es) s)) E = classList_add ''visible'' (classList s E)
      \<and> ''visible'' \<in> set (classList (fst (step f (RevealNotify es) s)) E))
   \<and> (''visible'' \<in> set (classList t E) \<longrightarrow>
      classList (fst (step f (RevealNotify es') t)) E = classList t E
      \<and> ''visible'' \<in> set (classList (exec f evs t) E))"
proof -
  have "\<exists>e\<in>set (filter (\<lambda>e. entry_target e \<in> set (observed s)) es).
          isIntersecting e \<and> entry_target e = E"
    if "E \<in> set (observed s)" and "\<exists>e\<in>set es. isIntersecting e \<and> entry_target e = E"
    using that by auto
  then show ?thesis
    by (auto simp: revealCallback_classList classList_add_def exec_visible)
qed

theorem reveal_one_way_witness:
  "2 \<in> set (observed example_state)
   \<and> (\<exists>e\<in>set example_entries. isIntersecting e \<and> entry_target e = 2)
   \<and> classList (fst (step example_str2num (RevealNotify example_entries) example_state)) 2
       = [''scroll-animate'', ''visible'']
   \<and> classList (fst (step example_str2num (RevealNotify example_entries) example_state)) 3
       = [''scroll-animate'']
   \<and> classList (fst (step example_str2num (RevealNotify example_entries)
         (fst (step example_str2num (RevealNotify example_entries) example_state)))) 2
       = [''scroll-animate'', ''visible'']
   \<and> ''visible'' \<in> set (classList (exec example_str2num
         [RevealNotify [\<lparr>entry_target = 2, isIntersecting = False\<rparr>], Click]
         (fst (step example_str2num (RevealNotify example_entries) example_state))) 2)"
proof -
  let ?t = "fst (step example_str2num (RevealNotify example_entries) example_state)"
  have o: "2 \<in> set (observed example_state)"
    by (simp add: example_state_def init_fields querySelectorAll_def example_page_def observe_def)
  have e: "\<exists>e\<in>set example_entries. isIntersecting e \<and> entry_target e = 2"
    by (simp add: example_entries_def)
  have c: "classList example_state 2 = [''scroll-animate'']"
    "classList example_state 3 = [''scroll-animate'']"
    by (simp_all add: example_state_def init_fields example_page_def)
  have t3: "classList ?t 3 = [''scroll-animate'']"
    using c by (simp add: revealCallback_classList example_entries_def)
  have t2: "classList ?t 2 = [''scroll-animate'', ''visible'']"
    using reveal_one_way [of 2 example_state example_entries example_str2num] o e c
    by (simp add: classList_add_def)
  then have v: "''visible'' \<in> set (classList ?t 2)"
    by simp
  show ?thesis
    using o e t2 t3 v
      reveal_one_way [of 2 example_state example_entries example_str2num ?t example_entries
        "[RevealNotify [\<lparr>entry_target = 2, isIntersecting = False\<rparr>], Click]"]
    by simp
qed

section \<open>The counter watcher and the timers\<close>

lemma updateCounter_counter: "updateCounter a = (a', v, again) \<Longrightarrow> counter a' = counter a"
  by (auto simp: updateCounter_def Let_def split: if_splits)

lemma runUpdateCounter_other:
  assumes "counter a \<noteq> c"
  shows "timers_of c (runUpdateCounter a s) = timers_of c s"
    and "innerText (runUpdateCounter a s) c = innerText s c"
proof -
  obtain a' v again where u: "updateCounter a = (a', v, again)"
    by (cases "updateCounter a")
  then have "counter a' \<noteq> c"
    using assms updateCounter_counter by simp
  then show "timers_of c (runUpdateCounter a s) = timers_of c s"
    by (simp add: runUpdateCounter_def u timers_of_def)
  show "innerText (runUpdateCounter a s) c = innerText s c"
    using assms by (simp add: runUpdateCounter_def u)
qed


lemma runUpdateCounter_observed [simp]:
  "counterObserved (runUpdateCounter a s) = counterObserved s"
  by (simp add: runUpdateCounter_def split: prod.splits)

lemma counterEntry_observed:
  "set (counterObserved (counterEntry f e s)) =
     (if isIntersecting e then set (counterObserved s) - {entry_target e}
      else set (counterObserved s))"
  by (auto simp: counterEntry_def Let_def unobserve_def)

lemma counterCallback_observed_subset:
  "set (counterObserved (counterCallback f es s)) \<subseteq> set (counterObserved s)"
proof (induction es arbitrary: s)
  case Nil
  then show ?case by (simp add: counterCallback_def)
next
  case (Cons e es)
  have "counterCallback f (e # es) s = counterCallback f es (counterEntry f e s)"
    by (simp add: counterCallback_def)
  then show ?case
    using Cons.IH [of "counterEntry f e s"] counterEntry_observed [of f e s]
    by (auto split: if_splits)
qed


lemma counter_newCounter [simp]: "counter (newCounter c t) = c"
  by (simp add: newCounter_def)

lemma counterEntry_other:
  assumes "entry_target e \<noteq> c"
  shows "timers_of c (counterEntry f e s) = timers_of c s"
    and "innerText (counterEntry f e s) c = innerText s c"
proof -
  let ?a = "newCounter (entry_target e) (to_number f (data_target s (entry_target e)))"
  have ne: "counter ?a \<noteq> c"
    using assms by simp
  have t: "timers (counterEntry f e s) = (if isIntersecting e then timers (runUpdateCounter ?a s) else timers s)"
    by (simp add: counterEntry_def Let_def)
  have i: "innerText (counterEntry f e s) = (if isIntersecting e then innerText (runUpdateCounter ?a s) else innerText s)"
    by (simp add: counterEntry_def Let_def)
  show "timers_of c (counterEntry f e s) = timers_of c s"
    using runUpdateCounter_other(1) [OF ne, of s] t by (simp add: timers_of_def)
  show "innerText (counterEntry f e s) c = innerText s c"
    using runUpdateCounter_other(2) [OF ne, of s] i by simp
qed

lemma counterCallback_other:
  assumes "\<forall>e\<in>set es. entry_target e \<noteq> c"
  shows "timers_of c (counterCallback f es s) = timers_of c s
       \<and> innerText (counterCallback f es s) c = innerText s c"
  using assms
proof (induction es arbitrary: s)
  case Nil
  then show ?case by (simp add: counterCallback_def)
next
  case (Cons e es)
  have "counterCallback f (e # es) s = counterCallback f es (counterEntry f e s)"
    by (simp add: counterCallback_def)
  then show ?case
    using Cons.IH [of "counterEntry f e s"] Cons.prems counterEntry_other [of e c f s]
    by simp
qed

lemma revealCallback_counter_fields [simp]:
  "counterObserved (revealCallback es s) = counterObserved s"
  "timers (revealCallback es s) = timers s"
  "innerText (revealCallback es s) = innerText s"
  by (induction es arbitrary: s) (simp_all add: revealCallback_def revealEntry_def)

lemma timers_of_remove:
  assumes "i < length (timers s)"
  shows "length (timers_of c (s\<lparr>timers := take i (timers s) @ drop (Suc i) (timers s)\<rparr>))
       = length (timers_of c s) - (if counter (timers s ! i) = c then 1 else 0)"
proof -
  have "timers s = take i (timers s) @ timers s ! i # drop (Suc i) (timers s)"
    using assms by (rule id_take_nth_drop)
  then have "filter (\<lambda>a. counter a = c) (timers s)
      = filter (\<lambda>a. counter a = c) (take i (timers s) @ timers s ! i # drop (Suc i) (timers s))"
    by simp
  then show ?thesis
    by (simp add: timers_of_def)
qed

lemma timers_of_member:
  assumes "i < length (timers s)" and "counter (timers s ! i) = c"
  shows "timers s ! i \<in> set (timers_of c s)"
  using assms by (simp add: timers_of_def)

lemma step_unobserved:
  assumes "c \<notin> set (counterObserved s)"
  shows "c \<notin> set (counterObserved (fst (step f ev s)))"
proof (cases ev)
  case (CounterNotify es)
  then show ?thesis
    using assms counterCallback_observed_subset
      [of f "filter (\<lambda>e. entry_target e \<in> set (counterObserved s)) es" s]
    by auto
qed (use assms in \<open>simp_all split: option.splits\<close>)






lemma starting_Nil_iff:
  "starting c es = [] \<longleftrightarrow> (\<forall>e\<in>set es. \<not> (isIntersecting e \<and> entry_target e = c))"
  by (simp add: starting_def filter_empty_conv)


section \<open>A missing toggle control or menu container\<close>

lemma exec_menu_vars:
  "navbarMenu (exec f evs s) = navbarMenu s \<and> clickBound (exec f evs s) = clickBound s"
proof (induction evs arbitrary: s)
  case Nil
  then show ?case by simp
next
  case (Cons ev evs)
  then show ?case
    using step_menu_vars [of f ev s] by simp
qed

text \<open>
  C8, as stated, fails on a page without the toggle control: the fault is raised by the
  initialisation itself, no listener is added, and a click raises nothing.
\<close>

theorem missing_toggle_control_counterexample:
  "querySelector ''navbar-toggler'' page_without_toggler = None
   \<and> snd (init page_without_toggler) = Some TypeError
   \<and> snd (step example_str2num Click (fst (init page_without_toggler))) = None"
  by (simp add: init_fields querySelector_def page_without_toggler_def)

text \<open>
  C8, amended.  On a page \<open>p\<close> without the toggle control the initialisation raises a
  \<open>TypeError\<close> when it adds the listener, after both watchers have been given their
  elements, and later clicks do nothing.  On a page \<open>q\<close> with the toggle control and
  without the menu container the initialisation completes, and every click on the toggle
  control raises a \<open>TypeError\<close> and changes nothing.
\<close>

theorem missing_menu_element_fault:
  "(querySelector ''navbar-toggler'' p = None \<longrightarrow>
      snd (init p) = Some TypeError
      \<and> observed (fst (init p)) = fold observe (querySelectorAll ''scroll-animate'' p) []
      \<and> counterObserved (fst (init p)) = fold observe (querySelectorAll ''js-counter'' p) []
      \<and> step f Click (exec f evs (fst (init p))) = (exec f evs (fst (init p)), None))
   \<and> (querySelector ''navbar-toggler'' q \<noteq> None \<and> querySelector ''navbar-nav'' q = None \<longrightarrow>
      snd (init q) = None
      \<and> step f Click (exec f evs' (fst (init q))) = (exec f evs' (fst (init q)), Some TypeError))"
proof -
  have "step f Click (exec f evs (fst (init p))) = (exec f evs (fst (init p)), None)"
    if "querySelector ''navbar-toggler'' p = None"
    using that exec_menu_vars [of f evs "fst (init p)"] by (simp add: init_fields)
  moreover have "step f Click (exec f evs' (fst (init q))) = (exec f evs' (fst (init q)), Some TypeError)"
    if "querySelector ''navbar-toggler'' q \<noteq> None" and "querySelector ''navbar-nav'' q = None"
    using that exec_menu_vars [of f evs' "fst (init q)"] by (simp add: init_fields)
  ultimately show ?thesis
    by (auto simp: init_fields)
qed

theorem missing_menu_element_fault_witness:
  "querySelector ''navbar-toggler'' page_without_toggler = None
   \<and> snd (init page_without_toggler) = Some TypeError
   \<and> observed (fst (init page_without_toggler)) = [2]
   \<and> counterObserved (fst (init page_without_toggler)) = [4]
   \<and> snd (step example_str2num Click (exec example_str2num [Click] (fst (init page_without_toggler)))) = None
   \<and> querySelector ''navbar-toggler'' page_without_menu \<noteq> None
   \<and> querySelector ''navbar-nav'' page_without_menu = None
   \<and> snd (init page_without_menu) = None
   \<and> snd (step example_str2num Click (exec example_str2num [Click] (fst (init page_without_menu))))
       = Some TypeError"
proof -
  have t: "querySelector ''navbar-toggler'' page_without_toggler = None"
    by (simp add: querySelector_def page_without_toggler_def)
  have m: "querySelector ''navbar-toggler'' page_without_menu \<noteq> None"
    "querySelector ''navbar-nav'' page_without_menu = None"
    by (simp_all add: querySelector_def page_without_menu_def)
  have o: "fold observe (querySelectorAll ''scroll-animate'' page_without_toggler) [] = [2]"
    "fold observe (querySelectorAll ''js-counter'' page_without_toggler) [] = [4]"
    by (simp_all add: querySelectorAll_def page_without_toggler_def observe_def)
  show ?thesis
    using t m o
      missing_menu_element_fault [of page_without_toggler example_str2num "[Click]"
        page_without_menu "[Click]"]
    by simp
qed

section \<open>Observed counters have no timer\<close>

text \<open>
  In every state the page reaches, a counter that is still observed has no timer pending:
  its animation has not been started yet.
\<close>

lemma counterEntry_idle:
  assumes "c \<in> set (counterObserved (counterEntry f e s))"
  shows "timers_of c (counterEntry f e s) = timers_of c s"
proof (cases "isIntersecting e")
  case True
  then have "entry_target e \<noteq> c"
    using assms by (auto simp: counterEntry_observed)
  then show ?thesis
    by (rule counterEntry_other)
next
  case False
  then show ?thesis
    by (simp add: counterEntry_def)
qed

lemma counterCallback_idle:
  assumes "c \<in> set (counterObserved (counterCallback f es s))"
  shows "timers_of c (counterCallback f es s) = timers_of c s"
  using assms
proof (induction es arbitrary: s)
  case Nil
  then show ?case by (simp add: counterCallback_def)
next
  case (Cons e es)
  have unfold: "counterCallback f (e # es) s = counterCallback f es (counterEntry f e s)"
    by (simp add: counterCallback_def)
  then have last: "c \<in> set (counterObserved (counterCallback f es (counterEntry f e s)))"
    using Cons.prems by simp
  then have "c \<in> set (counterObserved (counterEntry f e s))"
    using counterCallback_observed_subset [of f es "counterEntry f e s"] by auto
  then have "timers_of c (counterEntry f e s) = timers_of c s"
    by (rule counterEntry_idle)
  then show ?case
    using Cons.IH [OF last] unfold by simp
qed

lemma step_observed_idle:
  assumes "c \<in> set (counterObserved s) \<longrightarrow> timers_of c s = []"
    and "c \<in> set (counterObserved (fst (step f ev s)))"
  shows "timers_of c (fst (step f ev s)) = []"
proof -
  have "c \<in> set (counterObserved s)"
    using assms(2) step_unobserved [of c s f ev] by blast
  then have idle: "timers_of c s = []"
    using assms(1) by simp
  show ?thesis
  proof (cases ev)
    case (RevealNotify es)
    then show ?thesis using idle by (simp add: timers_of_def)
  next
    case (CounterNotify es)
    then show ?thesis
      using assms(2) idle
        counterCallback_idle [of c f "filter (\<lambda>e. entry_target e \<in> set (counterObserved s)) es" s]
      by simp
  next
    case (TimerFire i)
    show ?thesis
    proof (cases "i < length (timers s)")
      case False
      then show ?thesis using TimerFire idle by simp
    next
      case True
      let ?s0 = "s\<lparr>timers := take i (timers s) @ drop (Suc i) (timers s)\<rparr>"
      have "counter (timers s ! i) \<noteq> c"
        using timers_of_member [OF True, of c] idle by auto
      then have "timers_of c (runUpdateCounter (timers s ! i) ?s0) = timers_of c ?s0"
        by (rule runUpdateCounter_other)
      moreover have "length (timers_of c ?s0) = 0"
        using timers_of_remove [OF True, of c] idle by simp
      ultimately show ?thesis
        using True TimerFire by simp
    qed
  next
    case Click
    then show ?thesis using idle by (simp add: timers_of_def split: option.splits)
  qed
qed

lemma exec_observed_idle:
  assumes "c \<in> set (counterObserved s) \<longrightarrow> timers_of c s = []"
    and "c \<in> set (counterObserved (exec f evs s))"
  shows "timers_of c (exec f evs s) = []"
  using assms
proof (induction evs arbitrary: s)
  case Nil
  then show ?case by simp
next
  case (Cons ev evs)
  have "c \<in> set (counterObserved (fst (step f ev s))) \<longrightarrow> timers_of c (fst (step f ev s)) = []"
    using step_observed_idle [OF Cons.prems(1)] by blast
  then show ?case
    using Cons.IH Cons.prems(2) by simp
qed

lemma reachable_observed_idle:
  assumes "c \<in> set (counterObserved (exec f evs (fst (init p))))"
  shows "timers_of c (exec f evs (fst (init p))) = []"
proof -
  have "timers_of c (fst (init p)) = []"
    by (simp add: timers_of_def init_fields)
  then show ?thesis
    using assms exec_observed_idle by blast
qed

section \<open>The chain of one animation\<close>

lemma nearest_small_int:
  assumes "1 \<le> n" and "n \<le> 2 ^ 52"
  shows "nearest (of_int n) = of_int n"
proof -
  let ?x = "of_int n :: rat"
  have x: "0 < ?x"
    using assms(1) by simp
  have b: "pow2 (ilog2 ?x) \<le> ?x" "?x < pow2 (ilog2 ?x + 1)"
    using ilog2_bounds [OF x] by simp_all
  have "pow2 0 \<le> ?x"
    using assms(1) by (simp add: pow2_numerals)
  then have "pow2 0 < pow2 (ilog2 ?x + 1)"
    using b(2) by (rule le_less_trans)
  then have lo: "0 \<le> ilog2 ?x"
    by (simp add: pow2_less_iff)
  have "?x \<le> pow2 52"
    using assms(2) by (simp add: pow2_numerals)
  then have "pow2 (ilog2 ?x) \<le> pow2 52"
    using b(1) by simp
  then have hi: "ilog2 ?x \<le> 52"
    by (simp add: pow2_le_iff)
  have e: "max (ilog2 ?x) (- 1022) = ilog2 ?x"
    using lo by simp
  have "pow2 (ilog2 ?x - 52) * pow2 (52 - ilog2 ?x) = pow2 0"
    by (rule pow2_mult_eq) simp
  moreover have "pow2 (52 - ilog2 ?x) = of_int (2 ^ nat (52 - ilog2 ?x))"
    using hi by (simp add: pow2_nat)
  ultimately have "?x = pow2 (ilog2 ?x - 52) * of_int (2 ^ nat (52 - ilog2 ?x) * n)"
    by (simp add: pow2_numerals mult.assoc [symmetric])
  then have "?x = pow2 (max (ilog2 ?x) (- 1022) - 52) * of_int (2 ^ nat (52 - ilog2 ?x) * n)"
    using e by simp
  then show ?thesis
    by (rule nearest_grid)
qed

lemma rd_mag_small_int:
  assumes "0 \<le> n" and "n \<le> 2 ^ 52"
  shows "rd_mag (of_int n) = Some (of_int n)"
proof (cases "n = 0")
  case True
  then show ?thesis by (simp add: rd_mag_def)
next
  case False
  then have n: "1 \<le> n"
    using assms(1) by simp
  have "(of_int n :: rat) \<le> pow2 52"
    using assms(2) by (simp add: pow2_numerals)
  moreover have "pow2 52 < pow2 1024"
    by (simp add: pow2_less_iff)
  ultimately have "\<not> pow2 1024 \<le> (of_int n :: rat)"
    by simp
  then show ?thesis
    using nearest_small_int [OF n assms(2)] False by (simp add: rd_mag_def)
qed

lemma rd_int:
  assumes "\<bar>n\<bar> \<le> 2 ^ 52"
  shows "rd (of_int n) = Fin (of_int n)"
proof (cases "0 \<le> n")
  case True
  then show ?thesis
    using rd_mag_small_int [of n] assms by (simp add: rd_def)
next
  case False
  then have "rd_mag (of_int (- n)) = Some (of_int (- n))"
    using assms by (intro rd_mag_small_int) simp_all
  then show ?thesis
    using False by (simp add: rd_def)
qed

lemma rd_numeral [simp]:
  "numeral k \<le> (2 ^ 52 :: int) \<Longrightarrow> rd (numeral k) = Fin (numeral k)"
  "numeral k \<le> (2 ^ 52 :: int) \<Longrightarrow> rd (- numeral k) = Fin (- numeral k)"
  "rd 0 = Fin 0" "rd 1 = Fin 1"
  using rd_int [of "numeral k"] rd_int [of "- numeral k"] rd_int [of 0] rd_int [of 1]
  by simp_all

lemma totalSteps_100 [simp]: "totalSteps = Fin 100"
  by (simp add: totalSteps_def duration_def stepTime_def)

lemma chain_again:
  "updateCounter a = (a', v, True) \<Longrightarrow> chain a = Option.bind (chain a') (\<lambda>r. Some ((v, True) # r))"
  by (subst chain.simps) simp

lemma chain_stop:
  "updateCounter a = (a', v, False) \<Longrightarrow> chain a = Some [(v, False)]"
  by (subst chain.simps) simp

lemma updateCounter_lt:
  assumes "js_lt (js_add (current a) (increment a)) (target a)"
  shows "updateCounter a = (a\<lparr>current := js_add (current a) (increment a)\<rparr>,
           js_ceil (js_add (current a) (increment a)), True)"
  using assms by (simp add: updateCounter_def Let_def)

lemma updateCounter_ge:
  assumes "\<not> js_lt (js_add (current a) (increment a)) (target a)"
  shows "updateCounter a = (a\<lparr>current := js_add (current a) (increment a)\<rparr>, target a, False)"
  using assms by (simp add: updateCounter_def Let_def)

lemma newCounter_fields [simp]:
  "counter (newCounter c t) = c" "target (newCounter c t) = t"
  "increment (newCounter c t) = js_div t (Fin 100)" "current (newCounter c t) = Fin 0"
  by (simp_all add: newCounter_def)

text \<open>Target 0\<close>

lemma zero_target:
  "updateCounter (newCounter c (Fin 0)) = (newCounter c (Fin 0), Fin 0, False)"
  "chain (newCounter c (Fin 0)) = Some [(Fin 0, False)]"
proof -
  show u: "updateCounter (newCounter c (Fin 0)) = (newCounter c (Fin 0), Fin 0, False)"
    by (simp add: updateCounter_def Let_def newCounter_def)
  show "chain (newCounter c (Fin 0)) = Some [(Fin 0, False)]"
    using u by (rule chain_stop)
qed

text \<open>Target 100\<close>

lemma chain_100:
  assumes "k + m = 99"
  shows "chain \<lparr>counter = c, target = Fin 100, increment = Fin 1, current = Fin (of_nat k)\<rparr>
       = Some (map (\<lambda>j. (Fin (of_nat j), True)) [Suc k..<100] @ [(Fin 100, False)])"
  using assms
proof (induction m arbitrary: k)
  case 0
  then have k: "k = 99" by simp
  let ?a = "\<lparr>counter = c, target = Fin 100, increment = Fin 1, current = Fin (of_nat k)\<rparr>"
  have "js_add (current ?a) (increment ?a) = Fin 100"
    by (simp add: k)
  then have "updateCounter ?a = (?a\<lparr>current := Fin 100\<rparr>, Fin 100, False)"
    using updateCounter_ge [of ?a] by simp
  then have "chain ?a = Some [(Fin 100, False)]"
    by (rule chain_stop)
  then show ?case by (simp add: k)
next
  case (Suc m)
  then have k: "k < 99" and km: "Suc k + m = 99" by simp_all
  let ?a = "\<lparr>counter = c, target = Fin 100, increment = Fin 1, current = Fin (of_nat k)\<rparr>"
  have "rd (of_int (int k + 1)) = Fin (of_int (int k + 1))"
    using k by (intro rd_int) simp
  then have s: "js_add (current ?a) (increment ?a) = Fin (of_nat (Suc k))"
    by (simp add: add.commute)
  have lt: "js_lt (Fin (of_nat (Suc k))) (Fin 100)"
    using k by (simp del: of_nat_Suc)
  have "updateCounter ?a = (?a\<lparr>current := Fin (of_nat (Suc k))\<rparr>, Fin (of_nat (Suc k)), True)"
    using updateCounter_lt [of ?a] s lt by (simp del: of_nat_Suc)
  then have "chain ?a = Option.bind (chain (?a\<lparr>current := Fin (of_nat (Suc k))\<rparr>))
      (\<lambda>r. Some ((Fin (of_nat (Suc k)), True) # r))"
    by (rule chain_again)
  moreover have "[Suc k..<100] = Suc k # [Suc (Suc k)..<100]"
    using k by (simp add: upt_conv_Cons)
  ultimately show ?case
    using Suc.IH [OF km] by (simp del: of_nat_Suc upt_Suc)
qed

lemma rd_mag_Some:
  assumes "0 < x" and "rd_mag x = Some y"
  shows "y = nearest x" and "y < pow2 1024"
  using assms by (simp_all add: rd_mag_def split: if_splits)

lemma rd_mag_bounded:
  assumes "0 < x" and "2 * x < pow2 1024"
  shows "rd_mag x = Some (nearest x)"
proof -
  have "nearest x < pow2 1024"
    using nearest_le_double [OF assms(1)] assms(2) by simp
  then show ?thesis
    using assms(1) by (simp add: rd_mag_def)
qed

lemma is_double_neg_bound:
  assumes "is_double r" and "r < 0"
  shows "- r < pow2 1024"
proof -
  have "rd r = Fin r"
    using assms(1) by (simp add: is_double_def)
  then have "rd_mag (- r) = Some (- r)"
    using assms(2) by (simp add: rd_def split: option.splits)
  then show ?thesis
    using assms(2) rd_mag_Some(2) [of "- r" "- r"] by simp
qed

text \<open>A negative finite target: the quotient and the first accumulator.\<close>

lemma negative_quotient:
  assumes "is_double r" and "r < 0"
  shows "\<exists>i. js_div (Fin r) (Fin 100) = Fin (- i) \<and> 0 \<le> i \<and> i \<le> - r / 50
             \<and> js_add (Fin 0) (Fin (- i)) = Fin (- i)"
proof -
  let ?x = "- (r / 100)"
  have x: "0 < ?x"
    using assms(2) by simp
  have "2 * ?x < pow2 1024"
    using is_double_neg_bound [OF assms] assms(2) by simp
  then have m: "rd_mag ?x = Some (nearest ?x)"
    using x by (rule rd_mag_bounded [rotated])
  have q: "rd (r / 100) = Fin (- nearest ?x)"
    using assms(2) m by (simp add: rd_def)
  have "rd (- nearest ?x) = Fin (- nearest ?x)"
    using q by (rule rd_idem)
  then show ?thesis
    using q nearest_nonneg [OF x] nearest_le_double [OF x] by (intro exI [of _ "nearest ?x"]) simp
qed

lemma negative_target_chain:
  assumes "js_lt t (Fin 0)" and "binary64 t"
  shows "js_add (Fin 0) (js_div t (Fin 100)) = js_div t (Fin 100)"
    and "\<not> js_lt (js_div t (Fin 100)) t"
    and "t \<noteq> NInf \<Longrightarrow> js_lt t (js_div t (Fin 100))"
    and "updateCounter (newCounter c t)
           = ((newCounter c t)\<lparr>current := js_div t (Fin 100)\<rparr>, t, False)"
    and "chain (newCounter c t) = Some [(t, False)]"
proof -
  have facts: "js_add (Fin 0) (js_div t (Fin 100)) = js_div t (Fin 100)
      \<and> \<not> js_lt (js_div t (Fin 100)) t \<and> (t \<noteq> NInf \<longrightarrow> js_lt t (js_div t (Fin 100)))"
  proof (cases t)
    case (Fin r)
    then have r: "r < 0" "is_double r"
      using assms by simp_all
    obtain i where i: "js_div (Fin r) (Fin 100) = Fin (- i)" "0 \<le> i" "i \<le> - r / 50"
        "js_add (Fin 0) (Fin (- i)) = Fin (- i)"
      using negative_quotient [OF r(2,1)] by blast
    have "r < - i"
      using i(2,3) r(1) by linarith
    then show ?thesis
      using Fin i by simp
  qed (use assms in simp_all)
  then show a: "js_add (Fin 0) (js_div t (Fin 100)) = js_div t (Fin 100)"
    and b: "\<not> js_lt (js_div t (Fin 100)) t"
    and "t \<noteq> NInf \<Longrightarrow> js_lt t (js_div t (Fin 100))"
    by simp_all
  show u: "updateCounter (newCounter c t)
           = ((newCounter c t)\<lparr>current := js_div t (Fin 100)\<rparr>, t, False)"
    using updateCounter_ge [of "newCounter c t"] a b by simp
  show "chain (newCounter c t) = Some [(t, False)]"
    using u by (rule chain_stop)
qed

text \<open>Positive integer targets: every step moves the accumulator up by a fixed amount.\<close>

lemma abs_bound_lower:
  fixes x y k b :: rat
  assumes "\<bar>y - x\<bar> * k \<le> b" and "0 \<le> k"
  shows "(x - y) * k \<le> b"
proof -
  have "x - y \<le> \<bar>y - x\<bar>"
    by linarith
  then have "(x - y) * k \<le> \<bar>y - x\<bar> * k"
    using assms(2) by (rule mult_right_mono)
  then show ?thesis
    using assms(1) by simp
qed

lemma pow2_tiny: "pow2 (- 1022) \<le> 1 / 256"
proof -
  have "pow2 (- 1022) \<le> pow2 (- 8)"
    by (simp add: pow2_le_iff)
  also have "pow2 (- 8) = 1 / 256"
    by (simp add: pow2_def)
  finally show ?thesis .
qed

lemma positive_quotient:
  assumes "1 \<le> T"
  shows "js_div (Fin T) (Fin 100) = PInf
       \<or> (\<exists>i. js_div (Fin T) (Fin 100) = Fin i \<and> T * (2 ^ 53 - 1) \<le> i * 100 * 2 ^ 53 \<and> i \<le> T / 50)"
proof -
  let ?x = "T / 100"
  have x: "0 < ?x" and n: "pow2 (- 1022) \<le> ?x"
    using assms pow2_tiny by simp_all
  show ?thesis
  proof (cases "rd_mag ?x")
    case None
    then show ?thesis using x by (simp add: rd_def)
  next
    case (Some i)
    then have i: "i = nearest ?x"
      using x by (simp add: rd_mag_Some)
    have "\<bar>i - ?x\<bar> * 2 ^ 53 \<le> ?x"
      unfolding i using n by (rule nearest_error)
    then have "(?x - i) * 2 ^ 53 \<le> ?x"
      by (rule abs_bound_lower) simp
    then have "T * (2 ^ 53 - 1) \<le> i * 100 * 2 ^ 53"
      by (simp add: algebra_simps)
    moreover have "i \<le> T / 50"
      unfolding i using nearest_le_double [OF x] by simp
    moreover have "js_div (Fin T) (Fin 100) = Fin i"
      using Some x by (simp add: rd_def)
    ultimately show ?thesis by blast
  qed
qed

lemma step_progress:
  assumes "1 \<le> T" and "T * (2 ^ 53 - 1) \<le> i * 100 * 2 ^ 53" and "i \<le> T / 50"
    and "0 \<le> c" and "c < T" and "rd_mag (c + i) = Some y"
  shows "c + T / 200 \<le> y"
proof -
  have i: "1 / 200 \<le> i"
    using assms(1,2) by simp
  then have x: "0 < c + i" and n: "pow2 (- 1022) \<le> c + i"
    using assms(4) pow2_tiny by simp_all
  have y: "y = nearest (c + i)"
    using x assms(6) by (rule rd_mag_Some)
  have "\<bar>y - (c + i)\<bar> * 2 ^ 53 \<le> c + i"
    unfolding y using n by (rule nearest_error)
  then have "(c + i - y) * 2 ^ 53 \<le> c + i"
    by (rule abs_bound_lower) simp
  then show ?thesis
    using assms(1,2,3,4,5) by simp
qed

lemma chain_positive:
  fixes n :: int
  assumes "1 \<le> n" and "target a = Fin (of_int n)" and "increment a = Fin i"
    and "of_int n * (2 ^ 53 - 1) \<le> i * 100 * 2 ^ 53" and "i \<le> of_int n / 50"
    and "current a = Fin c" and "0 \<le> c" and "c < of_int n"
    and "of_int n - c \<le> of_nat k * (of_int n / 200)"
  shows "\<exists>ys. chain a = Some (map (\<lambda>y. (js_ceil (Fin y), True)) ys @ [(Fin (of_int n), False)])
           \<and> sorted_wrt (<) ys \<and> (\<forall>y\<in>set ys. c < y \<and> y < of_int n) \<and> length ys \<le> k"
  using assms(2,3,6,7,8,9)
proof (induction k arbitrary: a c)
  case 0
  then show ?case by simp
next
  case (Suc k)
  let ?T = "of_int n :: rat"
  have T: "1 \<le> ?T"
    using assms(1) by simp
  have stop: "\<exists>ys. chain a = Some (map (\<lambda>y. (js_ceil (Fin y), True)) ys @ [(Fin ?T, False)])
           \<and> sorted_wrt (<) ys \<and> (\<forall>y\<in>set ys. c < y \<and> y < ?T) \<and> length ys \<le> Suc k"
    if "\<not> js_lt (js_add (current a) (increment a)) (target a)"
  proof -
    have "updateCounter a = (a\<lparr>current := js_add (current a) (increment a)\<rparr>, target a, False)"
      using that by (rule updateCounter_ge)
    then have "chain a = Some [(Fin ?T, False)]"
      using chain_stop Suc.prems(1) by simp
    then show ?thesis
      by (intro exI [of _ "[]"]) simp
  qed
  have pos: "0 < c + i"
    using T assms(4) Suc.prems(4) by simp
  show ?case
  proof (cases "rd_mag (c + i)")
    case None
    then have "js_add (current a) (increment a) = PInf"
      using pos Suc.prems(2,3) by (simp add: rd_def)
    then show ?thesis
      using stop Suc.prems(1) by simp
  next
    case (Some y)
    have y: "c + ?T / 200 \<le> y"
      using T assms(4,5) Suc.prems(4,5) Some by (rule step_progress)
    have cy: "c < y"
      using y T by simp
    have sum: "js_add (current a) (increment a) = Fin y"
      using pos Some Suc.prems(2,3) by (simp add: rd_def)
    show ?thesis
    proof (cases "y < ?T")
      case False
      then show ?thesis
        using stop sum Suc.prems(1) by simp
    next
      case True
      let ?a = "a\<lparr>current := Fin y\<rparr>"
      have "updateCounter a = (?a, js_ceil (Fin y), True)"
        using updateCounter_lt [of a] sum True Suc.prems(1) by simp
      then have ch: "chain a = Option.bind (chain ?a) (\<lambda>r. Some ((js_ceil (Fin y), True) # r))"
        by (rule chain_again)
      have "?T - y \<le> of_nat k * (?T / 200)"
        using y Suc.prems(6) by (simp add: algebra_simps)
      moreover have "0 \<le> y"
        using cy Suc.prems(4) by simp
      ultimately obtain ys where ys: "chain ?a
            = Some (map (\<lambda>y. (js_ceil (Fin y), True)) ys @ [(Fin ?T, False)])"
          "sorted_wrt (<) ys" "\<forall>z\<in>set ys. y < z \<and> z < ?T" "length ys \<le> k"
        using Suc.IH [of ?a y] Suc.prems(1,2) True by auto
      have "chain a = Some (map (\<lambda>y. (js_ceil (Fin y), True)) (y # ys) @ [(Fin ?T, False)])"
        using ch ys(1) by simp
      moreover have "sorted_wrt (<) (y # ys)"
        using ys(2,3) by simp
      moreover have "\<forall>z\<in>set (y # ys). c < z \<and> z < ?T"
        using ys(3) cy True by auto
      moreover have "length (y # ys) \<le> Suc k"
        using ys(4) by simp
      ultimately show ?thesis by blast
    qed
  qed
qed

text \<open>
  The chain of an integer target \<open>n \<ge> 1\<close>: the accumulators \<open>ys\<close> below the target grow
  strictly, each call writes the ceiling of its accumulator, and the last call writes \<open>n\<close>.
\<close>

lemma positive_target_chain:
  fixes n :: int
  assumes "1 \<le> n"
  shows "\<exists>ys. chain (newCounter c (Fin (of_int n)))
             = Some (map (\<lambda>y. (js_ceil (Fin y), True)) ys @ [(Fin (of_int n), False)])
           \<and> sorted_wrt (<) ys \<and> (\<forall>y\<in>set ys. 0 < y \<and> y < of_int n) \<and> length ys \<le> 200"
proof -
  let ?T = "of_int n :: rat"
  let ?a = "newCounter c (Fin ?T)"
  have T: "1 \<le> ?T"
    using assms by simp
  from positive_quotient [OF T]
  show ?thesis
  proof
    assume inf: "js_div (Fin ?T) (Fin 100) = PInf"
    then have "\<not> js_lt (js_add (current ?a) (increment ?a)) (target ?a)"
      by simp
    then have "updateCounter ?a = (?a\<lparr>current := js_add (current ?a) (increment ?a)\<rparr>, target ?a, False)"
      by (rule updateCounter_ge)
    then have "chain ?a = Some [(Fin ?T, False)]"
      using chain_stop by simp
    then show ?thesis
      by (intro exI [of _ "[]"]) simp
  next
    assume "\<exists>i. js_div (Fin ?T) (Fin 100) = Fin i \<and> ?T * (2 ^ 53 - 1) \<le> i * 100 * 2 ^ 53
        \<and> i \<le> ?T / 50"
    then obtain i where i: "js_div (Fin ?T) (Fin 100) = Fin i"
        "?T * (2 ^ 53 - 1) \<le> i * 100 * 2 ^ 53" "i \<le> ?T / 50"
      by blast
    have "?T - 0 \<le> of_nat 200 * (?T / 200)"
      by simp
    from chain_positive [OF assms _ _ i(2,3) _ _ _ this, of ?a]
    show ?thesis
      using i(1) T by simp
  qed
qed

lemma ceilings_sorted:
  fixes ys :: "rat list"
  assumes "sorted_wrt (<) ys" and "\<forall>y\<in>set ys. 0 < y \<and> y < of_int n" and "1 \<le> n"
  shows "sorted (map ceiling ys @ [n])" and "\<forall>d\<in>set (map ceiling ys @ [n]). 1 \<le> d \<and> d \<le> n"
proof -
  have le: "\<lceil>y\<rceil> \<le> n" and ge: "1 \<le> \<lceil>y\<rceil>" if "y \<in> set ys" for y
  proof -
    have "0 < y" and "y \<le> of_int n"
      using assms(2) that by auto
    then show "\<lceil>y\<rceil> \<le> n" and "1 \<le> \<lceil>y\<rceil>"
      by (simp_all add: ceiling_le_iff)
  qed
  have "sorted_wrt (\<le>) ys"
    using assms(1) by (rule sorted_wrt_mono_rel [rotated]) simp
  then have "sorted (map ceiling ys)"
    by (simp add: sorted_wrt_map sorted_wrt_mono_rel [where P = "(\<le>)"] ceiling_mono)
  then show "sorted (map ceiling ys @ [n])"
    using le by (simp add: sorted_append)
  show "\<forall>d\<in>set (map ceiling ys @ [n]). 1 \<le> d \<and> d \<le> n"
    using le ge assms(3) by auto
qed

lemma chain_nonempty: "chain a \<noteq> Some []"
  by (subst chain.simps) (auto split: prod.splits Option.bind_splits)

lemma step_trigger:
  assumes "c \<in> set (counterObserved s)"
  shows "fst (step f (trigger c) s)
       = (runUpdateCounter (newCounter c (to_number f (data_target s c))) s)
           \<lparr>counterObserved := unobserve c (counterObserved s)\<rparr>"
  using assms by (simp add: trigger_def counterCallback_def counterEntry_def Let_def)

lemma stop_step:
  assumes "c \<in> set (counterObserved s)"
    and "updateCounter (newCounter c (to_number f (data_target s c))) = (a', v, False)"
  shows "fst (step f (trigger c) s)
       = s\<lparr>innerText := (innerText s)(c := Num v),
           counterObserved := unobserve c (counterObserved s)\<rparr>"
  using assms(2) by (simp add: step_trigger [OF assms(1)] runUpdateCounter_def)

lemma example_state_facts:
  "counterObserved example_state = [4, 5, 6, 7, 8]"
  "observed example_state = [1, 2, 3]"
  "timers example_state = []"
  "data_target example_state = data_target example_page"
  "innerText example_state = innerText example_page"
  by (simp_all add: example_state_def init_fields querySelectorAll_def example_page_def observe_def)

lemma example_targets:
  "to_number example_str2num (data_target example_state 4) = Fin 100"
  "to_number example_str2num (data_target example_state 5) = Fin 3"
  "data_target example_state 6 = None"
  "to_number example_str2num (data_target example_state 7) = Fin (- 5)"
  "to_number example_str2num (data_target example_state 8) = Fin 0"
  by (simp_all add: example_state_facts example_page_def to_number_def example_str2num_def)

section \<open>The animation in a run of events\<close>

lemma remaining_Nil: "remaining c s [] \<longleftrightarrow> c \<notin> set (counterObserved s) \<and> timers_of c s = []"
  using chain_nonempty by (auto simp: remaining_def split: list.splits)

lemma remaining_pending:
  assumes "remaining c s r" and "r \<noteq> []"
  obtains a where "timers_of c s = [a]" and "chain a = Some r" and "c \<notin> set (counterObserved s)"
  using assms by (auto simp: remaining_def split: list.splits)

lemma timers_of_innerText [simp]:
  "timers_of c (s\<lparr>innerText := t\<rparr>) = timers_of c s"
  "timers_of c (s\<lparr>counterObserved := obs\<rparr>) = timers_of c s"
  "timers_of c (s\<lparr>classList := cl\<rparr>) = timers_of c s"
  by (simp_all add: timers_of_def)

text \<open>One call of \<open>updateCounter\<close> for \<open>c\<close>, with no other timer of \<open>c\<close> pending.\<close>

lemma runUpdateCounter_remaining:
  assumes "chain a = Some r" and "counter a = c" and "timers_of c s = []"
    and "c \<notin> set (counterObserved s)"
  shows "r \<noteq> [] \<and> innerText (runUpdateCounter a s) c = Num (fst (hd r))
       \<and> remaining c (runUpdateCounter a s) (tl r)"
proof -
  obtain a' v again where u: "updateCounter a = (a', v, again)"
    by (cases "updateCounter a")
  have ca: "counter a' = c"
    using u assms(2) updateCounter_counter by simp
  show ?thesis
  proof (cases again)
    case False
    then have "chain a = Some [(v, False)]"
      using u chain_stop by simp
    then have r: "r = [(v, False)]"
      using assms(1) by simp
    have "runUpdateCounter a s = s\<lparr>innerText := (innerText s)(c := Num v)\<rparr>"
      using u False assms(2) by (simp add: runUpdateCounter_def)
    then show ?thesis
      using r assms(3,4) by (simp add: remaining_Nil)
  next
    case True
    then have "chain a = Option.bind (chain a') (\<lambda>r. Some ((v, True) # r))"
      using u chain_again by simp
    then obtain r' where r: "r = (v, True) # r'" and r': "chain a' = Some r'"
      using assms(1) by (auto split: Option.bind_splits)
    have run: "runUpdateCounter a s
        = s\<lparr>innerText := (innerText s)(c := Num v), timers := timers s @ [a']\<rparr>"
      using u True assms(2) by (simp add: runUpdateCounter_def)
    have "timers_of c (runUpdateCounter a s) = [a']"
      unfolding run using assms(3) ca by (simp add: timers_of_def)
    then have "remaining c (runUpdateCounter a s) r'"
      using r' assms(4) by (simp add: remaining_def run)
    then show ?thesis
      using r run by simp
  qed
qed

lemma timers_of_singleton:
  assumes "timers_of c s = [a]" and "i < length (timers s)" and "counter (timers s ! i) = c"
  shows "timers s ! i = a"
    and "timers_of c (s\<lparr>timers := take i (timers s) @ drop (Suc i) (timers s)\<rparr>) = []"
proof -
  show "timers s ! i = a"
    using timers_of_member [OF assms(2,3)] assms(1) by simp
  have "length (timers_of c (s\<lparr>timers := take i (timers s) @ drop (Suc i) (timers s)\<rparr>)) = 0"
    using timers_of_remove [OF assms(2), of c] assms(1,3) by simp
  then show "timers_of c (s\<lparr>timers := take i (timers s) @ drop (Suc i) (timers s)\<rparr>) = []"
    by simp
qed

lemma step_other:
  assumes "c \<notin> set (counterObserved s)" and "\<not> fires_now c ev s"
  shows "timers_of c (fst (step f ev s)) = timers_of c s"
    and "innerText (fst (step f ev s)) c = innerText s c"
proof -
  have "timers_of c (fst (step f ev s)) = timers_of c s
      \<and> innerText (fst (step f ev s)) c = innerText s c"
  proof (cases ev)
    case (RevealNotify es)
    then show ?thesis by (simp add: timers_of_def)
  next
    case (CounterNotify es)
    have "\<forall>e\<in>set (filter (\<lambda>e. entry_target e \<in> set (counterObserved s)) es). entry_target e \<noteq> c"
      using assms(1) by auto
    from counterCallback_other [OF this, of f s] CounterNotify
    show ?thesis by simp
  next
    case (TimerFire i)
    show ?thesis
    proof (cases "i < length (timers s)")
      case False
      then show ?thesis using TimerFire by simp
    next
      case True
      let ?s0 = "s\<lparr>timers := take i (timers s) @ drop (Suc i) (timers s)\<rparr>"
      have ne: "counter (timers s ! i) \<noteq> c"
        using assms(2) True TimerFire by simp
      have "filter (\<lambda>a. counter a = c) (timers s)
          = filter (\<lambda>a. counter a = c) (take i (timers s) @ timers s ! i # drop (Suc i) (timers s))"
        using id_take_nth_drop [OF True] by simp
      then have "timers_of c ?s0 = timers_of c s"
        using ne by (simp add: timers_of_def)
      then show ?thesis
        using runUpdateCounter_other [OF ne, of ?s0] True TimerFire by simp
    qed
  next
    case Click
    then show ?thesis by (simp add: timers_of_def split: option.splits)
  qed
  then show "timers_of c (fst (step f ev s)) = timers_of c s"
    and "innerText (fst (step f ev s)) c = innerText s c"
    by simp_all
qed

lemma step_remaining:
  assumes "remaining c s r"
  shows "if fires_now c ev s
         then r \<noteq> [] \<and> innerText (fst (step f ev s)) c = Num (fst (hd r))
              \<and> remaining c (fst (step f ev s)) (tl r)
         else innerText (fst (step f ev s)) c = innerText s c \<and> remaining c (fst (step f ev s)) r"
proof (cases "fires_now c ev s")
  case False
  have u: "c \<notin> set (counterObserved s)"
    using assms by (simp add: remaining_def)
  then have "c \<notin> set (counterObserved (fst (step f ev s)))"
    by (rule step_unobserved)
  then have "remaining c (fst (step f ev s)) r"
    using assms step_other(1) [OF u False, of f] by (simp add: remaining_def)
  then show ?thesis
    using False step_other(2) [OF u False, of f] by simp
next
  case True
  then obtain i where ev: "ev = TimerFire i" and i: "i < length (timers s)"
      and ci: "counter (timers s ! i) = c"
    by (cases ev) simp_all
  have "timers_of c s \<noteq> []"
    using timers_of_member [OF i ci] by auto
  then have r0: "r \<noteq> []"
    using assms remaining_Nil [of c s] by auto
  then obtain a where a: "timers_of c s = [a]" "chain a = Some r" "c \<notin> set (counterObserved s)"
    using assms remaining_pending by blast
  let ?s0 = "s\<lparr>timers := take i (timers s) @ drop (Suc i) (timers s)\<rparr>"
  have "timers s ! i = a" and idle: "timers_of c ?s0 = []"
    using timers_of_singleton [OF a(1) i ci] by simp_all
  then have st: "fst (step f ev s) = runUpdateCounter a ?s0"
    using ev i by simp
  have "counter a = c"
    using \<open>timers s ! i = a\<close> ci by simp
  from runUpdateCounter_remaining [OF a(2) this idle] a(3)
  show ?thesis
    using True st by simp
qed

text \<open>
  Along any run of events the animation goes through its chain: after \<open>m\<close> firings of the
  timer of \<open>c\<close>, the first \<open>m\<close> of the remaining writes are done and the last of them shows.
\<close>

lemma exec_remaining:
  assumes "remaining c s r"
  shows "fires f c evs s \<le> length r
       \<and> remaining c (exec f evs s) (drop (fires f c evs s) r)
       \<and> innerText (exec f evs s) c
           = (if fires f c evs s = 0 then innerText s c else Num (fst (r ! (fires f c evs s - 1))))"
  using assms
proof (induction evs arbitrary: s r)
  case Nil
  then show ?case by simp
next
  case (Cons ev evs)
  let ?s = "fst (step f ev s)"
  note sr = step_remaining [OF Cons.prems, of ev f]
  show ?case
  proof (cases "fires_now c ev s")
    case False
    then have rem: "remaining c ?s r" and shown: "innerText ?s c = innerText s c"
      using sr by simp_all
    from Cons.IH [OF rem] show ?thesis
      using False shown by simp
  next
    case True
    then have r0: "r \<noteq> []" and shown: "innerText ?s c = Num (fst (hd r))"
      and rem: "remaining c ?s (tl r)"
      using sr by simp_all
    let ?m = "fires f c evs ?s"
    have IH: "?m \<le> length (tl r)" "remaining c (exec f evs ?s) (drop ?m (tl r))"
      "innerText (exec f evs ?s) c = (if ?m = 0 then innerText ?s c else Num (fst (tl r ! (?m - 1))))"
      using Cons.IH [OF rem] by simp_all
    have total: "fires f c (ev # evs) s = Suc ?m"
      using True by simp
    have "Suc ?m \<le> length r"
      using IH(1) r0 by (cases r) simp_all
    moreover have "drop (Suc ?m) r = drop ?m (tl r)"
      by (simp add: drop_Suc)
    moreover have "innerText (exec f evs ?s) c = Num (fst (r ! ?m))"
    proof (cases "?m = 0")
      case True
      then show ?thesis
        using IH(3) shown r0 by (simp add: hd_conv_nth)
    next
      case False
      then have "tl r ! (?m - 1) = r ! ?m"
        using r0 IH(1) by (cases r) (simp_all add: nth_Cons')
      then show ?thesis
        using IH(3) False by simp
    qed
    ultimately show ?thesis
      using IH(2) total by simp
  qed
qed

lemma counterEntry_data_target [simp]: "data_target (counterEntry f e s) = data_target s"
  by (simp add: counterEntry_def Let_def runUpdateCounter_def split: prod.splits)

lemma counterCallback_data_target [simp]: "data_target (counterCallback f es s) = data_target s"
  by (induction es arbitrary: s) (simp_all add: counterCallback_def)

lemma counterCallback_append:
  "counterCallback f (xs @ ys) s = counterCallback f ys (counterCallback f xs s)"
  by (simp add: counterCallback_def)

text \<open>Entries that do not start the animation of \<open>c\<close> leave \<open>c\<close> as it is.\<close>

lemma counterEntry_skip:
  assumes "\<not> (isIntersecting e \<and> entry_target e = c)"
  shows "timers_of c (counterEntry f e s) = timers_of c s
       \<and> innerText (counterEntry f e s) c = innerText s c
       \<and> (c \<in> set (counterObserved (counterEntry f e s))) = (c \<in> set (counterObserved s))"
proof (cases "isIntersecting e")
  case True
  then have ne: "entry_target e \<noteq> c"
    using assms by simp
  then show ?thesis
    using counterEntry_other [OF ne, of f s] by (auto simp: counterEntry_observed)
next
  case False
  then show ?thesis by (simp add: counterEntry_def)
qed

lemma counterCallback_skip:
  assumes "starting c es = []"
  shows "timers_of c (counterCallback f es s) = timers_of c s
       \<and> innerText (counterCallback f es s) c = innerText s c
       \<and> (c \<in> set (counterObserved (counterCallback f es s))) = (c \<in> set (counterObserved s))"
  using assms
proof (induction es arbitrary: s)
  case Nil
  then show ?case by (simp add: counterCallback_def)
next
  case (Cons e es)
  have unfold: "counterCallback f (e # es) s = counterCallback f es (counterEntry f e s)"
    by (simp add: counterCallback_def)
  have e: "\<not> (isIntersecting e \<and> entry_target e = c)" and es: "starting c es = []"
    using Cons.prems by (simp_all add: starting_def split: if_splits)
  show ?case
    using Cons.IH [OF es, of "counterEntry f e s"] counterEntry_skip [OF e, of f s]
    by (simp add: unfold)
qed

lemma runUpdateCounter_counterObserved:
  "runUpdateCounter a (s\<lparr>counterObserved := obs\<rparr>) = (runUpdateCounter a s)\<lparr>counterObserved := obs\<rparr>"
  by (simp add: runUpdateCounter_def split: prod.splits)

lemma batch_start:
  assumes "first_intersection c es s"
    and "chain (newCounter c (to_number f (data_target s c))) = Some r"
  shows "r \<noteq> [] \<and> innerText (fst (step f (CounterNotify es) s)) c = Num (fst (hd r))
       \<and> remaining c (fst (step f (CounterNotify es) s)) (tl r)"
proof -
  let ?es = "filter (\<lambda>e. entry_target e \<in> set (counterObserved s)) es"
  have obs: "c \<in> set (counterObserved s)" and idle: "timers_of c s = []"
    and one: "length (starting c es) = 1"
    using assms(1) by (simp_all add: first_intersection_def)
  have "starting c ?es = starting c es"
    using obs by (auto simp: starting_def intro: filter_cong)
  then obtain e where "filter (\<lambda>e. isIntersecting e \<and> entry_target e = c) ?es = [e]"
    using one by (auto simp: starting_def length_Suc_conv)
  then obtain xs zs where split: "?es = xs @ e # zs"
    and xs0: "\<forall>u\<in>set xs. \<not> (isIntersecting u \<and> entry_target u = c)"
    and e: "isIntersecting e \<and> entry_target e = c"
    and zs0: "[] = filter (\<lambda>e. isIntersecting e \<and> entry_target e = c) zs"
    unfolding filter_eq_Cons_iff by blast
  have xs: "starting c xs = []"
    using xs0 by (simp add: starting_Nil_iff)
  have zs: "starting c zs = []"
    using zs0 by (simp add: starting_def)
  let ?sx = "counterCallback f xs s"
  let ?a = "newCounter c (to_number f (data_target s c))"
  let ?sx' = "?sx\<lparr>counterObserved := unobserve c (counterObserved ?sx)\<rparr>"
  have sx: "timers_of c ?sx = []" "innerText ?sx c = innerText s c"
    using counterCallback_skip [OF xs, of f s] idle by simp_all
  have "counterEntry f e ?sx = runUpdateCounter ?a ?sx'"
    using e by (simp add: counterEntry_def Let_def runUpdateCounter_counterObserved)
  moreover have "c \<notin> set (counterObserved ?sx')" and "timers_of c ?sx' = []"
    using sx(1) by (simp_all add: unobserve_def)
  ultimately have se: "r \<noteq> []" "innerText (counterEntry f e ?sx) c = Num (fst (hd r))"
      "remaining c (counterEntry f e ?sx) (tl r)"
    using runUpdateCounter_remaining [OF assms(2), of c ?sx'] by simp_all
  let ?se = "counterEntry f e ?sx"
  have final: "fst (step f (CounterNotify es) s) = counterCallback f zs ?se"
    using split by (simp add: counterCallback_append counterCallback_def)
  note last = counterCallback_skip [OF zs, of f ?se]
  have "c \<notin> set (counterObserved (counterCallback f zs ?se))"
    using se(3) last by (simp add: remaining_def)
  then have "remaining c (counterCallback f zs ?se) (tl r)"
      "innerText (counterCallback f zs ?se) c = Num (fst (hd r))"
    using se(2,3) last by (simp_all add: remaining_def)
  then show ?thesis
    using se(1) final by simp
qed

lemma remaining_idle:
  assumes "remaining c s r"
  shows "(timers_of c s = []) = (r = [])" and "c \<notin> set (counterObserved s)"
  using assms chain_nonempty by (auto simp: remaining_def split: list.splits)

text \<open>
  The animation of \<open>c\<close> in any run of events after its first qualifying intersection: the
  text of \<open>c\<close> is the write of the chain that the number of firings of its timer selects,
  and a timer of \<open>c\<close> is pending until the last write is done.
\<close>

lemma animation_run:
  assumes "first_intersection c es s"
    and "chain (newCounter c (to_number f (data_target s c))) = Some r"
  shows "fires f c evs (fst (step f (CounterNotify es) s)) < length r
       \<and> innerText (exec f evs (fst (step f (CounterNotify es) s))) c
           = Num (fst (r ! fires f c evs (fst (step f (CounterNotify es) s))))
       \<and> (timers_of c (exec f evs (fst (step f (CounterNotify es) s))) = [])
           = (Suc (fires f c evs (fst (step f (CounterNotify es) s))) = length r)
       \<and> c \<notin> set (counterObserved (exec f evs (fst (step f (CounterNotify es) s))))"
proof -
  let ?s = "fst (step f (CounterNotify es) s)"
  let ?m = "fires f c evs ?s"
  have st: "r \<noteq> []" "innerText ?s c = Num (fst (hd r))" "remaining c ?s (tl r)"
    using batch_start [OF assms] by simp_all
  have run: "?m \<le> length (tl r)" "remaining c (exec f evs ?s) (drop ?m (tl r))"
    "innerText (exec f evs ?s) c
       = (if ?m = 0 then innerText ?s c else Num (fst (tl r ! (?m - 1))))"
    using exec_remaining [OF st(3), of f evs] by simp_all
  have lt: "?m < length r"
    using run(1) st(1) by (cases r) simp_all
  have shown: "innerText (exec f evs ?s) c = Num (fst (r ! ?m))"
  proof (cases "?m = 0")
    case True
    then show ?thesis
      using run(3) st(1,2) by (simp add: hd_conv_nth)
  next
    case False
    then have "tl r ! (?m - 1) = r ! ?m"
      using st(1) by (cases r) (simp_all add: nth_Cons')
    then show ?thesis
      using run(3) False by simp
  qed
  have "(timers_of c (exec f evs ?s) = []) = (drop ?m (tl r) = [])"
    using run(2) by (rule remaining_idle)
  also have "\<dots> = (Suc ?m = length r)"
    using run(1) st(1) by (cases r) auto
  finally have "(timers_of c (exec f evs ?s) = []) = (Suc ?m = length r)" .
  moreover have "c \<notin> set (counterObserved (exec f evs ?s))"
    using run(2) by (rule remaining_idle)
  ultimately show ?thesis
    using lt shown by simp
qed

lemma fires_append:
  "fires f c (evs @ evs') s = fires f c evs s + fires f c evs' (exec f evs s)"
  by (induction evs arbitrary: s) simp_all

lemma immediate_stop:
  assumes "first_intersection c es s"
    and "chain (newCounter c (to_number f (data_target s c))) = Some [(v, False)]"
  shows "innerText (exec f evs (deliver f es s)) c = Num v
       \<and> timers_of c (exec f evs (deliver f es s)) = []
       \<and> fires f c evs (deliver f es s) = 0"
  using animation_run [OF assms, of evs] by (simp add: deliver_def)

lemma runUpdateCounter_data_target:
  "runUpdateCounter a (s\<lparr>data_target := D\<rparr>) = (runUpdateCounter a s)\<lparr>data_target := D\<rparr>"
  by (simp add: runUpdateCounter_def split: prod.splits)

lemma counterEntry_attr:
  assumes "to_number f (D (entry_target e)) = to_number f (data_target s (entry_target e))"
  shows "counterEntry f e (s\<lparr>data_target := D\<rparr>) = (counterEntry f e s)\<lparr>data_target := D\<rparr>"
  using assms by (simp add: counterEntry_def Let_def runUpdateCounter_data_target)

lemma counterCallback_attr:
  assumes "\<forall>e\<in>set es. to_number f (D (entry_target e)) = to_number f (data_target s (entry_target e))"
  shows "counterCallback f es (s\<lparr>data_target := D\<rparr>) = (counterCallback f es s)\<lparr>data_target := D\<rparr>"
  using assms
proof (induction es arbitrary: s)
  case Nil
  then show ?case by (simp add: counterCallback_def)
next
  case (Cons e es)
  have unfold: "counterCallback f (e # es) t = counterCallback f es (counterEntry f e t)" for t
    by (simp add: counterCallback_def)
  have "counterEntry f e (s\<lparr>data_target := D\<rparr>) = (counterEntry f e s)\<lparr>data_target := D\<rparr>"
    using Cons.prems by (intro counterEntry_attr) simp
  moreover have "counterCallback f es ((counterEntry f e s)\<lparr>data_target := D\<rparr>)
      = (counterCallback f es (counterEntry f e s))\<lparr>data_target := D\<rparr>"
    using Cons.prems by (intro Cons.IH) simp
  ultimately show ?case
    by (simp add: unfold)
qed

lemma deliver_attr:
  assumes "data_target s c = None" and "f str = Fin 0"
  shows "deliver f es (s\<lparr>data_target := (data_target s)(c := Some str)\<rparr>)
       = (deliver f es s)\<lparr>data_target := (data_target s)(c := Some str)\<rparr>"
proof -
  have "\<forall>e\<in>set (filter (\<lambda>e. entry_target e \<in> set (counterObserved s)) es).
      to_number f (((data_target s)(c := Some str)) (entry_target e))
        = to_number f (data_target s (entry_target e))"
    using assms by (simp add: to_number_def)
  then show ?thesis
    by (simp add: deliver_def counterCallback_attr)
qed

lemma example_first_intersection:
  "first_intersection 4 example_batch example_state"
  "first_intersection 5 example_batch example_state"
  "first_intersection 6 example_batch example_state"
  "first_intersection 7 example_batch example_state"
  "first_intersection 8 example_batch example_state"
  by (simp_all add: first_intersection_def example_state_facts example_batch_def timers_of_def
      starting_def)




section \<open>The counter is triggered at most once\<close>




section \<open>The counter animation\<close>

text \<open>
  C1.  Let the counter \<open>c\<close>, with an integer target \<open>n \<ge> 1\<close>, have its first qualifying
  intersection (every observed counter of a page run from its initialisation has no timer
  pending, by \<open>reachable_observed_idle\<close>).  Its chain of calls is finite: there is an
  \<open>N \<le> 200\<close> such that, in every run of events after that delivery, the timer of \<open>c\<close> fires
  at most \<open>N\<close> times, a timer of \<open>c\<close> is pending exactly as long as it has fired less than
  \<open>N\<close> times, and once it has fired \<open>N\<close> times the text of \<open>c\<close> is \<open>n\<close>, written by the last
  call from the target itself, with nothing scheduled.
\<close>

theorem counter_converges:
  fixes n :: int
  assumes "1 \<le> n" and "first_intersection c es s"
    and "to_number f (data_target s c) = Fin (of_int n)"
  shows "\<exists>N r. N \<le> 200 \<and> chain (newCounter c (Fin (of_int n))) = Some r \<and> length r = Suc N
           \<and> last r = (Fin (of_int n), False)
           \<and> (\<forall>evs. fires f c evs (deliver f es s) \<le> N
                 \<and> (timers_of c (exec f evs (deliver f es s)) = [])
                     = (fires f c evs (deliver f es s) = N)
                 \<and> (fires f c evs (deliver f es s) = N \<longrightarrow>
                      innerText (exec f evs (deliver f es s)) c = Num (Fin (of_int n))))"
proof -
  obtain ys where ys: "chain (newCounter c (Fin (of_int n)))
        = Some (map (\<lambda>y. (js_ceil (Fin y), True)) ys @ [(Fin (of_int n), False)])"
      "length ys \<le> 200"
    using positive_target_chain [OF assms(1), of c] by blast
  let ?r = "map (\<lambda>y. (js_ceil (Fin y), True)) ys @ [(Fin (of_int n), False)]"
  have ch: "chain (newCounter c (to_number f (data_target s c))) = Some ?r"
    using ys(1) assms(3) by simp
  have run: "fires f c evs (deliver f es s) \<le> length ys
      \<and> (timers_of c (exec f evs (deliver f es s)) = [])
          = (fires f c evs (deliver f es s) = length ys)
      \<and> (fires f c evs (deliver f es s) = length ys \<longrightarrow>
           innerText (exec f evs (deliver f es s)) c = Num (Fin (of_int n)))" for evs
    using animation_run [OF assms(2) ch, of evs] by (auto simp: deliver_def nth_append)
  show ?thesis
    using ys run by (intro exI [of _ "length ys"] exI [of _ ?r]) simp
qed

theorem counter_converges_witness:
  "(1::int) \<le> 3 \<and> first_intersection 5 example_batch example_state
   \<and> to_number example_str2num (data_target example_state 5) = Fin (of_int 3)
   \<and> (\<exists>N r. N \<le> 200 \<and> chain (newCounter 5 (Fin (of_int 3))) = Some r \<and> length r = Suc N
           \<and> last r = (Fin (of_int 3), False)
           \<and> (\<forall>evs. fires example_str2num 5 evs (deliver example_str2num example_batch example_state) \<le> N
                 \<and> (timers_of 5 (exec example_str2num evs
                       (deliver example_str2num example_batch example_state)) = [])
                     = (fires example_str2num 5 evs
                         (deliver example_str2num example_batch example_state) = N)
                 \<and> (fires example_str2num 5 evs
                       (deliver example_str2num example_batch example_state) = N \<longrightarrow>
                      innerText (exec example_str2num evs
                        (deliver example_str2num example_batch example_state)) 5
                      = Num (Fin (of_int 3)))))"
proof -
  have h1: "(1::int) \<le> 3" by simp
  have h2: "first_intersection 5 example_batch example_state"
    by (rule example_first_intersection)
  have h3: "to_number example_str2num (data_target example_state 5) = Fin (of_int 3)"
    by (simp add: example_targets)
  show ?thesis
    by (intro conjI h1 h2 h3 counter_converges [OF h1 h2 h3])
qed

text \<open>
  C6.  For an integer target \<open>n \<ge> 1\<close> the accumulators \<open>ys\<close> that stay below the target grow
  strictly; the values written during the animation are their ceilings followed by \<open>n\<close>.
  This list is non-decreasing, its members are at most \<open>n\<close>, and it ends with \<open>n\<close>.  In
  every run of events the text of the counter is the member of the list that the number of
  firings of its timer selects, so what is shown never decreases as the run goes on.
\<close>

theorem counter_monotone:
  fixes n :: int
  assumes "1 \<le> n" and "first_intersection c es s"
    and "to_number f (data_target s c) = Fin (of_int n)"
  shows "\<exists>ys. sorted_wrt (<) ys \<and> (\<forall>y\<in>set ys. 0 < y \<and> y < of_int n)
           \<and> chain (newCounter c (Fin (of_int n)))
               = Some (map (\<lambda>y. (js_ceil (Fin y), True)) ys @ [(Fin (of_int n), False)])
           \<and> sorted (map ceiling ys @ [n])
           \<and> (\<forall>d\<in>set (map ceiling ys @ [n]). 1 \<le> d \<and> d \<le> n)
           \<and> last (map ceiling ys @ [n]) = n
           \<and> (\<forall>evs. fires f c evs (deliver f es s) \<le> length ys
                 \<and> innerText (exec f evs (deliver f es s)) c
                     = Num (Fin (of_int ((map ceiling ys @ [n]) ! fires f c evs (deliver f es s)))))
           \<and> (\<forall>evs evs'. (map ceiling ys @ [n]) ! fires f c evs (deliver f es s)
                 \<le> (map ceiling ys @ [n]) ! fires f c (evs @ evs') (deliver f es s))"
proof -
  obtain ys where ys: "chain (newCounter c (Fin (of_int n)))
        = Some (map (\<lambda>y. (js_ceil (Fin y), True)) ys @ [(Fin (of_int n), False)])"
      "sorted_wrt (<) ys" "\<forall>y\<in>set ys. 0 < y \<and> y < of_int n"
    using positive_target_chain [OF assms(1), of c] by blast
  let ?r = "map (\<lambda>y. (js_ceil (Fin y), True)) ys @ [(Fin (of_int n), False)]"
  let ?ds = "map ceiling ys @ [n]"
  let ?s = "deliver f es s"
  have ch: "chain (newCounter c (to_number f (data_target s c))) = Some ?r"
    using ys(1) assms(3) by simp
  have nth: "fst (?r ! j) = Fin (of_int (?ds ! j))" if "j \<le> length ys" for j
    using that by (cases "j < length ys") (simp_all add: nth_append)
  have bound: "fires f c evs ?s \<le> length ys" for evs
    using animation_run [OF assms(2) ch, of evs] by (simp add: deliver_def)
  have shown: "innerText (exec f evs ?s) c = Num (Fin (of_int (?ds ! fires f c evs ?s)))" for evs
    using animation_run [OF assms(2) ch, of evs] nth [OF bound [of evs]] by (simp add: deliver_def)
  note cs = ceilings_sorted [OF ys(2,3) assms(1)]
  have mono: "?ds ! fires f c evs ?s \<le> ?ds ! fires f c (evs @ evs') ?s" for evs evs'
  proof -
    have "fires f c evs ?s \<le> fires f c (evs @ evs') ?s"
      by (simp add: fires_append)
    moreover have "fires f c (evs @ evs') ?s < length ?ds"
      using bound [of "evs @ evs'"] by simp
    ultimately show ?thesis
      using cs(1) by (rule sorted_nth_mono [rotated 1])
  qed
  show ?thesis
    using ys cs bound shown mono by (intro exI [of _ ys]) simp
qed

theorem counter_monotone_witness:
  "(1::int) \<le> 100 \<and> first_intersection 4 example_batch example_state
   \<and> to_number example_str2num (data_target example_state 4) = Fin (of_int 100)
   \<and> (\<exists>ys. sorted_wrt (<) ys \<and> (\<forall>y\<in>set ys. 0 < y \<and> y < of_int 100)
           \<and> chain (newCounter 4 (Fin (of_int 100)))
               = Some (map (\<lambda>y. (js_ceil (Fin y), True)) ys @ [(Fin (of_int 100), False)])
           \<and> sorted (map ceiling ys @ [100])
           \<and> (\<forall>d\<in>set (map ceiling ys @ [100]). 1 \<le> d \<and> d \<le> 100)
           \<and> last (map ceiling ys @ [100]) = 100
           \<and> (\<forall>evs. fires example_str2num 4 evs
                       (deliver example_str2num example_batch example_state) \<le> length ys
                 \<and> innerText (exec example_str2num evs
                       (deliver example_str2num example_batch example_state)) 4
                     = Num (Fin (of_int ((map ceiling ys @ [100])
                         ! fires example_str2num 4 evs
                             (deliver example_str2num example_batch example_state)))))
           \<and> (\<forall>evs evs'. (map ceiling ys @ [100])
                   ! fires example_str2num 4 evs
                       (deliver example_str2num example_batch example_state)
                 \<le> (map ceiling ys @ [100])
                   ! fires example_str2num 4 (evs @ evs')
                       (deliver example_str2num example_batch example_state)))"
proof -
  have h1: "(1::int) \<le> 100" by simp
  have h2: "first_intersection 4 example_batch example_state"
    by (rule example_first_intersection)
  have h3: "to_number example_str2num (data_target example_state 4) = Fin (of_int 100)"
    by (simp add: example_targets)
  show ?thesis
    by (intro conjI h1 h2 h3 counter_monotone [OF h1 h2 h3])
qed

text \<open>
  C5.  The number of steps is \<open>1500 / 15 = 100\<close> and the increment is the target divided
  by it.  For the target \<open>100\<close> the increment is exactly \<open>1\<close> and the calls write
  \<open>1, 2, \<dots>, 100\<close>: in every run of events the text is one more than the number of
  firings of the timer, the timer fires 99 times at most, so the text is \<open>100\<close> after the
  hundredth call, when no timer is pending any more; the counter is unobserved throughout.
\<close>

theorem target_100_scenario:
  assumes "first_intersection c es s" and "to_number f (data_target s c) = Fin 100"
  shows "totalSteps = Fin 100 \<and> increment (newCounter c t) = js_div t totalSteps
       \<and> increment (newCounter c (Fin 100)) = Fin 1
       \<and> chain (newCounter c (Fin 100))
           = Some (map (\<lambda>j. (Fin (of_nat j), True)) [1..<100] @ [(Fin 100, False)])
       \<and> (\<forall>evs. fires f c evs (deliver f es s) \<le> 99
             \<and> innerText (exec f evs (deliver f es s)) c
                 = Num (Fin (of_nat (Suc (fires f c evs (deliver f es s)))))
             \<and> (timers_of c (exec f evs (deliver f es s)) = [])
                 = (fires f c evs (deliver f es s) = 99)
             \<and> c \<notin> set (counterObserved (exec f evs (deliver f es s))))"
proof -
  let ?r = "map (\<lambda>j. (Fin (of_nat j), True)) [1..<100] @ [(Fin 100, False)]"
  have new: "newCounter c (Fin 100)
      = \<lparr>counter = c, target = Fin 100, increment = Fin 1, current = Fin (of_nat 0)\<rparr>"
    by (simp add: newCounter_def)
  have c100: "chain (newCounter c (Fin 100)) = Some ?r"
    unfolding new using chain_100 [of 0 99 c] by simp
  then have ch: "chain (newCounter c (to_number f (data_target s c))) = Some ?r"
    using assms(2) by simp
  have len: "length ?r = 100"
    by simp
  have nth: "fst (?r ! k) = Fin (of_nat (Suc k))" if "k < 100" for k
  proof (cases "k < 99")
    case True
    then show ?thesis by (simp add: nth_append del: upt_Suc of_nat_Suc)
  next
    case False
    then have "k = 99" using that by simp
    then show ?thesis by (simp add: nth_append del: upt_Suc)
  qed
  have run: "fires f c evs (deliver f es s) \<le> 99
      \<and> innerText (exec f evs (deliver f es s)) c
          = Num (Fin (of_nat (Suc (fires f c evs (deliver f es s)))))
      \<and> (timers_of c (exec f evs (deliver f es s)) = []) = (fires f c evs (deliver f es s) = 99)
      \<and> c \<notin> set (counterObserved (exec f evs (deliver f es s)))" for evs
  proof -
    note ar = animation_run [OF assms(1) ch, of evs, folded deliver_def]
    have lt: "fires f c evs (deliver f es s) < 100"
      using ar len by (simp del: upt_Suc)
    show ?thesis
      using ar nth [OF lt] lt len by (simp del: upt_Suc of_nat_Suc)
  qed
  show ?thesis
    using c100 run by (simp del: upt_Suc of_nat_Suc add: newCounter_def)
qed

theorem target_100_scenario_witness:
  "first_intersection 4 example_batch example_state
   \<and> to_number example_str2num (data_target example_state 4) = Fin 100
   \<and> increment (newCounter 4 (Fin 100)) = Fin 1
   \<and> chain (newCounter 4 (Fin 100))
       = Some (map (\<lambda>j. (Fin (of_nat j), True)) [1..<100] @ [(Fin 100, False)])
   \<and> (\<forall>evs. fires example_str2num 4 evs (deliver example_str2num example_batch example_state) \<le> 99
         \<and> innerText (exec example_str2num evs
               (deliver example_str2num example_batch example_state)) 4
             = Num (Fin (of_nat (Suc (fires example_str2num 4 evs
                 (deliver example_str2num example_batch example_state)))))
         \<and> (timers_of 4 (exec example_str2num evs
               (deliver example_str2num example_batch example_state)) = [])
             = (fires example_str2num 4 evs
                 (deliver example_str2num example_batch example_state) = 99)
         \<and> 4 \<notin> set (counterObserved (exec example_str2num evs
               (deliver example_str2num example_batch example_state))))"
proof -
  have h1: "first_intersection 4 example_batch example_state"
    by (rule example_first_intersection)
  have h2: "to_number example_str2num (data_target example_state 4) = Fin 100"
    by (simp add: example_targets)
  note t = target_100_scenario [OF h1 h2, of "Fin 100"]
  show ?thesis
    by (intro conjI h1 h2 t [THEN conjunct2, THEN conjunct2, THEN conjunct1]
        t [THEN conjunct2, THEN conjunct2, THEN conjunct2, THEN conjunct1]
        t [THEN conjunct2, THEN conjunct2, THEN conjunct2, THEN conjunct2])
qed

text \<open>
  C7.  For the target \<open>0\<close> the increment is \<open>0\<close>, the first comparison \<open>0 < 0\<close> fails, and
  the first call writes \<open>0\<close> and schedules nothing: in every run of events after the first
  qualifying intersection the text is \<open>0\<close>, no timer of the counter is pending and none
  fires.
\<close>

theorem target_zero_scenario:
  assumes "first_intersection c es s" and "to_number f (data_target s c) = Fin 0"
  shows "increment (newCounter c (Fin 0)) = Fin 0
       \<and> js_add (current (newCounter c (Fin 0))) (increment (newCounter c (Fin 0))) = Fin 0
       \<and> \<not> js_lt (Fin 0) (Fin 0)
       \<and> chain (newCounter c (Fin 0)) = Some [(Fin 0, False)]
       \<and> (\<forall>evs. innerText (exec f evs (deliver f es s)) c = Num (Fin 0)
             \<and> timers_of c (exec f evs (deliver f es s)) = []
             \<and> fires f c evs (deliver f es s) = 0)"
proof -
  have "chain (newCounter c (to_number f (data_target s c))) = Some [(Fin 0, False)]"
    using zero_target(2) [of c] assms(2) by simp
  from immediate_stop [OF assms(1) this] zero_target(2) [of c]
  show ?thesis by simp
qed

theorem target_zero_scenario_witness:
  "first_intersection 8 example_batch example_state
   \<and> to_number example_str2num (data_target example_state 8) = Fin 0
   \<and> chain (newCounter 8 (Fin 0)) = Some [(Fin 0, False)]
   \<and> (\<forall>evs. innerText (exec example_str2num evs
               (deliver example_str2num example_batch example_state)) 8 = Num (Fin 0)
         \<and> timers_of 8 (exec example_str2num evs
               (deliver example_str2num example_batch example_state)) = []
         \<and> fires example_str2num 8 evs (deliver example_str2num example_batch example_state) = 0)"
proof -
  have h1: "first_intersection 8 example_batch example_state"
    by (rule example_first_intersection)
  have h2: "to_number example_str2num (data_target example_state 8) = Fin 0"
    by (simp add: example_targets)
  note t = target_zero_scenario [OF h1 h2]
  show ?thesis
    by (intro conjI h1 h2 t [THEN conjunct2, THEN conjunct2, THEN conjunct2, THEN conjunct1]
        t [THEN conjunct2, THEN conjunct2, THEN conjunct2, THEN conjunct2])
qed

text \<open>
  C9.  For a negative finite target \<open>r\<close> the first accumulator is the quotient \<open>r / 100\<close>
  as rounded, which is greater than \<open>r\<close>; the comparison fails, the first call writes \<open>r\<close>
  and schedules nothing, and in every run of events the text stays \<open>r\<close> with no timer of
  the counter.  (The target \<open>-Infinity\<close> stops at the first call as well.)
\<close>

theorem negative_target_stops:
  assumes "r < 0" and "is_double r" and "first_intersection c es s"
    and "to_number f (data_target s c) = Fin r"
  shows "js_add (current (newCounter c (Fin r))) (increment (newCounter c (Fin r)))
           = js_div (Fin r) totalSteps
       \<and> js_lt (Fin r) (js_div (Fin r) totalSteps)
       \<and> \<not> js_lt (js_div (Fin r) totalSteps) (Fin r)
       \<and> chain (newCounter c (Fin r)) = Some [(Fin r, False)]
       \<and> (\<forall>evs. innerText (exec f evs (deliver f es s)) c = Num (Fin r)
             \<and> timers_of c (exec f evs (deliver f es s)) = []
             \<and> fires f c evs (deliver f es s) = 0)
       \<and> chain (newCounter c NInf) = Some [(NInf, False)]"
proof -
  have neg: "js_lt (Fin r) (Fin 0)" and b: "binary64 (Fin r)"
    using assms(1,2) by simp_all
  note nt = negative_target_chain [OF neg b]
  have "chain (newCounter c (to_number f (data_target s c))) = Some [(Fin r, False)]"
    using nt(5) [of c] assms(4) by simp
  note stop = immediate_stop [OF assms(3) this]
  have "chain (newCounter c NInf) = Some [(NInf, False)]"
    by (rule negative_target_chain) simp_all
  then show ?thesis
    using nt(1,2,3) nt(5) [of c] stop by simp
qed

theorem negative_target_stops_witness:
  "(- 5 :: rat) < 0 \<and> is_double (- 5) \<and> first_intersection 7 example_batch example_state
   \<and> to_number example_str2num (data_target example_state 7) = Fin (- 5)
   \<and> js_lt (Fin (- 5)) (js_div (Fin (- 5)) totalSteps)
   \<and> chain (newCounter 7 (Fin (- 5))) = Some [(Fin (- 5), False)]
   \<and> (\<forall>evs. innerText (exec example_str2num evs
               (deliver example_str2num example_batch example_state)) 7 = Num (Fin (- 5))
         \<and> timers_of 7 (exec example_str2num evs
               (deliver example_str2num example_batch example_state)) = []
         \<and> fires example_str2num 7 evs (deliver example_str2num example_batch example_state) = 0)"
proof -
  have h1: "(- 5 :: rat) < 0" by simp
  have h2: "is_double (- 5)"
    by (simp add: is_double_def)
  have h3: "first_intersection 7 example_batch example_state"
    by (rule example_first_intersection)
  have h4: "to_number example_str2num (data_target example_state 7) = Fin (- 5)"
    by (rule example_targets)
  note t = negative_target_stops [OF h1 h2 h3 h4]
  show ?thesis
    by (intro conjI h1 h2 h3 h4 t [THEN conjunct2, THEN conjunct1]
        t [THEN conjunct2, THEN conjunct2, THEN conjunct2, THEN conjunct1]
        t [THEN conjunct2, THEN conjunct2, THEN conjunct2, THEN conjunct2, THEN conjunct1])
qed

text \<open>
  C10.  A counter without the \<open>data-target\<close> attribute has the target \<open>0\<close>: the first
  call writes \<open>0\<close> and schedules nothing, in every run of events the text stays \<open>0\<close> with no
  timer of the counter, and the delivery leaves the page in the same state as with an
  attribute whose string converts to \<open>0\<close>.
\<close>

theorem absent_attribute_is_zero:
  assumes "first_intersection c es s" and "data_target s c = None"
  shows "to_number f (data_target s c) = Fin 0
       \<and> chain (newCounter c (to_number f (data_target s c))) = Some [(Fin 0, False)]
       \<and> (\<forall>evs. innerText (exec f evs (deliver f es s)) c = Num (Fin 0)
             \<and> timers_of c (exec f evs (deliver f es s)) = []
             \<and> fires f c evs (deliver f es s) = 0)
       \<and> (f str = Fin 0 \<longrightarrow>
            deliver f es (s\<lparr>data_target := (data_target s)(c := Some str)\<rparr>)
          = (deliver f es s)\<lparr>data_target := (data_target s)(c := Some str)\<rparr>)"
proof -
  have z: "to_number f (data_target s c) = Fin 0"
    using assms(2) by (simp add: to_number_def)
  then have ch: "chain (newCounter c (to_number f (data_target s c))) = Some [(Fin 0, False)]"
    using zero_target(2) [of c] by simp
  from immediate_stop [OF assms(1) ch] z ch deliver_attr [OF assms(2), of f str es]
  show ?thesis by simp
qed

theorem absent_attribute_is_zero_witness:
  "first_intersection 6 example_batch example_state \<and> data_target example_state 6 = None
   \<and> to_number example_str2num (data_target example_state 6) = Fin 0
   \<and> (\<forall>evs. innerText (exec example_str2num evs
               (deliver example_str2num example_batch example_state)) 6 = Num (Fin 0)
         \<and> timers_of 6 (exec example_str2num evs
               (deliver example_str2num example_batch example_state)) = []
         \<and> fires example_str2num 6 evs (deliver example_str2num example_batch example_state) = 0)
   \<and> example_str2num ''0'' = Fin 0
   \<and> deliver example_str2num example_batch
        (example_state\<lparr>data_target := (data_target example_state)(6 := Some ''0'')\<rparr>)
     = (deliver example_str2num example_batch example_state)
        \<lparr>data_target := (data_target example_state)(6 := Some ''0'')\<rparr>"
proof -
  have h1: "first_intersection 6 example_batch example_state"
    by (rule example_first_intersection)
  have h2: "data_target example_state 6 = None"
    by (rule example_targets)
  have h3: "example_str2num ''0'' = Fin 0"
    by (simp add: example_str2num_def)
  note t = absent_attribute_is_zero [OF h1 h2, of example_str2num "''0''"]
  have same: "deliver example_str2num example_batch
        (example_state\<lparr>data_target := (data_target example_state)(6 := Some ''0'')\<rparr>)
     = (deliver example_str2num example_batch example_state)
        \<lparr>data_target := (data_target example_state)(6 := Some ''0'')\<rparr>"
    using t h3 by blast
  show ?thesis
    by (intro conjI h1 h2 h3 same t [THEN conjunct1]
        t [THEN conjunct2, THEN conjunct2, THEN conjunct1])
qed

end
